theory Spec2Isabelle
  imports Main "HOL-Library.Sublist"
begin

section \<open>Strings and character classes of the host language\<close>

text \<open>
  A JavaScript string is a sequence of UTF-16 code units. A code unit is modelled by its
  number, an integer from 0 to 65535 (no definition depends on the bounds), a string by the
  list of its code units; \<open>lit\<close> turns an ASCII literal into such a list.
\<close>

type_synonym cu = int
type_synonym jstring = "cu list"

definition lit :: "string \<Rightarrow> jstring" where
  "lit s = map of_char s"

text \<open>
  \<open>is_ws\<close> is the set matched by the regular expression escape \<^verbatim>\<open>\s\<close> and removed
  by \<^verbatim>\<open>String.prototype.trim\<close>: the WhiteSpace and LineTerminator code points
  of ECMAScript. \<open>is_lt\<close> is LineTerminator alone, and \<open>is_word\<close> is the set of
  \<^verbatim>\<open>\w\<close>, which decides the word boundary \<^verbatim>\<open>\b\<close>.
\<close>

definition is_ws :: "cu \<Rightarrow> bool" where
  "is_ws c \<longleftrightarrow> (9 \<le> c \<and> c \<le> 13) \<or> c = 32 \<or> c = 160 \<or> c = 5760 \<or>
     (8192 \<le> c \<and> c \<le> 8202) \<or> c = 8232 \<or> c = 8233 \<or> c = 8239 \<or> c = 8287 \<or>
     c = 12288 \<or> c = 65279"

definition is_lt :: "cu \<Rightarrow> bool" where
  "is_lt c \<longleftrightarrow> c = 10 \<or> c = 13 \<or> c = 8232 \<or> c = 8233"

definition is_word :: "cu \<Rightarrow> bool" where
  "is_word c \<longleftrightarrow> (48 \<le> c \<and> c \<le> 57) \<or> (65 \<le> c \<and> c \<le> 90) \<or> c = 95 \<or>
     (97 \<le> c \<and> c \<le> 122)"

definition trim :: "jstring \<Rightarrow> jstring" where
  "trim s = rev (dropWhile is_ws (rev (dropWhile is_ws s)))"

definition startsWith :: "jstring \<Rightarrow> jstring \<Rightarrow> bool" where
  "startsWith s p \<longleftrightarrow> take (length p) s = p"

definition endsWith :: "jstring \<Rightarrow> jstring \<Rightarrow> bool" where
  "endsWith s p \<longleftrightarrow> length p \<le> length s \<and> drop (length s - length p) s = p"

section \<open>Regular expressions\<close>

text \<open>
  The patterns of the source are written in the abstract syntax below and run by a
  backtracking matcher that follows the ECMAScript semantics: alternatives are tried from
  left to right, a greedy quantifier tries one more iteration before it tries to stop, a
  lazy one the other way round, an iteration that consumes nothing is rejected, and the
  groups inside a quantifier are reset before each iteration. With the flag
  \<^verbatim>\<open>i\<close> a code unit matches a pattern character when the two are equal up to the
  case of ASCII letters, which is what the canonicalisation of ECMAScript comes to for the
  ASCII patterns of the source. A matcher state holds the code unit before the current
  position (for \<^verbatim>\<open>^\<close> and \<^verbatim>\<open>\b\<close>), the rest of the text and the captures.
\<close>

datatype citem = CChr cu | CRange cu cu | CSpace | CNonSpace

datatype regex =
    Chr cu
  | Cls "citem list"
  | NCls "citem list"
  | Dot
  | Bol
  | Eol
  | WordB
  | Eps
  | Seq regex regex
  | Alt regex regex
  | Star bool regex
  | Group nat regex

record flags =
  ignoreCase :: bool
  multiline :: bool

datatype mstate = MState (prev: "cu option") (rest: jstring) (caps: "(nat \<times> jstring) list")

fun swapcase :: "cu \<Rightarrow> cu" where
  "swapcase c = (if 65 \<le> c \<and> c \<le> 90 then c + 32
                 else if 97 \<le> c \<and> c \<le> 122 then c - 32 else c)"

fun item_has :: "citem \<Rightarrow> cu \<Rightarrow> bool" where
  "item_has (CChr a) c = (c = a)"
| "item_has (CRange a b) c = (a \<le> c \<and> c \<le> b)"
| "item_has CSpace c = is_ws c"
| "item_has CNonSpace c = (\<not> is_ws c)"

definition cls_has :: "flags \<Rightarrow> citem list \<Rightarrow> cu \<Rightarrow> bool" where
  "cls_has fl items c \<longleftrightarrow>
     list_ex (\<lambda>it. item_has it c) items \<or>
     (ignoreCase fl \<and> list_ex (\<lambda>it. item_has it (swapcase c)) items)"

definition step1 :: "(cu \<Rightarrow> bool) \<Rightarrow> mstate \<Rightarrow> mstate list" where
  "step1 P s = (case rest s of [] \<Rightarrow> []
                | c # cs \<Rightarrow> if P c then [MState (Some c) cs (caps s)] else [])"

definition at_bol :: "flags \<Rightarrow> mstate \<Rightarrow> bool" where
  "at_bol fl s \<longleftrightarrow> (case prev s of None \<Rightarrow> True | Some c \<Rightarrow> multiline fl \<and> is_lt c)"

definition at_eol :: "flags \<Rightarrow> mstate \<Rightarrow> bool" where
  "at_eol fl s \<longleftrightarrow> (case rest s of [] \<Rightarrow> True | c # _ \<Rightarrow> multiline fl \<and> is_lt c)"

definition at_wordb :: "mstate \<Rightarrow> bool" where
  "at_wordb s \<longleftrightarrow>
     (case prev s of None \<Rightarrow> False | Some c \<Rightarrow> is_word c) \<noteq>
     (case rest s of [] \<Rightarrow> False | c # _ \<Rightarrow> is_word c)"

definition consumed :: "mstate \<Rightarrow> mstate \<Rightarrow> jstring" where
  "consumed s s' = take (length (rest s) - length (rest s')) (rest s)"

definition set_cap :: "nat \<Rightarrow> jstring \<Rightarrow> mstate \<Rightarrow> mstate" where
  "set_cap n v s = MState (prev s) (rest s) ((n, v) # filter (\<lambda>p. fst p \<noteq> n) (caps s))"

fun groups :: "regex \<Rightarrow> nat list" where
  "groups (Seq a b) = groups a @ groups b"
| "groups (Alt a b) = groups a @ groups b"
| "groups (Star g r) = groups r"
| "groups (Group n r) = n # groups r"
| "groups _ = []"

definition clear_caps :: "nat list \<Rightarrow> mstate \<Rightarrow> mstate" where
  "clear_caps ns s = MState (prev s) (rest s) (filter (\<lambda>p. fst p \<notin> set ns) (caps s))"

text \<open>
  \<open>ms fl r s\<close> lists the states in which a match of \<open>r\<close> started in \<open>s\<close> can end, in
  the order in which the backtracking matcher finds them. What the matcher returns for a
  whole pattern is the head of the list.
\<close>

function ms :: "flags \<Rightarrow> regex \<Rightarrow> mstate \<Rightarrow> mstate list" where
  "ms fl (Chr a) s =
     step1 (\<lambda>c. c = a \<or> (ignoreCase fl \<and> swapcase c = a)) s"
| "ms fl (Cls items) s = step1 (cls_has fl items) s"
| "ms fl (NCls items) s = step1 (\<lambda>c. \<not> cls_has fl items c) s"
| "ms fl Dot s = step1 (\<lambda>c. \<not> is_lt c) s"
| "ms fl Bol s = (if at_bol fl s then [s] else [])"
| "ms fl Eol s = (if at_eol fl s then [s] else [])"
| "ms fl WordB s = (if at_wordb s then [s] else [])"
| "ms fl Eps s = [s]"
| "ms fl (Seq a b) s = concat (map (ms fl b) (ms fl a s))"
| "ms fl (Alt a b) s = ms fl a s @ ms fl b s"
| "ms fl (Group n r) s = map (\<lambda>s'. set_cap n (consumed s s') s') (ms fl r s)"
| "ms fl (Star greedy r) s =
     (let more = concat (map
            (\<lambda>s'. if length (rest s') < length (rest s) then ms fl (Star greedy r) s' else [])
            (ms fl r (clear_caps (groups r) s)))
      in if greedy then more @ [s] else s # more)"
  by pat_completeness auto
termination
  by (relation "measures [\<lambda>(fl, r, s). size r, \<lambda>(fl, r, s). length (rest s)]")
     (auto simp: clear_caps_def)

text \<open>
  \<^verbatim>\<open>RegExp.prototype.exec\<close> without the sticky flag: the first start position, from the
  current one on, at which the pattern matches, with the end state the matcher returns there.
  \<open>re_test\<close> is \<^verbatim>\<open>RegExp.prototype.test\<close> on a pattern without the global flag, which
  always starts at index 0.
\<close>

fun re_search :: "flags \<Rightarrow> regex \<Rightarrow> cu option \<Rightarrow> jstring \<Rightarrow> mstate option" where
  "re_search fl r p [] =
     (case ms fl r (MState p [] []) of [] \<Rightarrow> None | s # _ \<Rightarrow> Some s)"
| "re_search fl r p (c # cs) =
     (case ms fl r (MState p (c # cs) []) of
        [] \<Rightarrow> re_search fl r (Some c) cs
      | s # _ \<Rightarrow> Some s)"

definition re_test :: "flags \<Rightarrow> regex \<Rightarrow> jstring \<Rightarrow> bool" where
  "re_test fl r text \<longleftrightarrow> re_search fl r None text \<noteq> None"

text \<open>
  \<^verbatim>\<open>String.prototype.replace\<close> with a pattern that has the global flag and a replacement
  string: every match, found from left to right and never overlapping, is replaced by the
  expanded template; after an empty match the search moves on by one code unit.
\<close>

datatype titem = TLit jstring | TCap nat

fun expand :: "titem list \<Rightarrow> (nat \<times> jstring) list \<Rightarrow> jstring" where
  "expand [] cs = []"
| "expand (TLit v # ts) cs = v @ expand ts cs"
| "expand (TCap n # ts) cs = (case map_of cs n of None \<Rightarrow> [] | Some v \<Rightarrow> v) @ expand ts cs"

function replace_all :: "flags \<Rightarrow> regex \<Rightarrow> titem list \<Rightarrow> cu option \<Rightarrow> jstring \<Rightarrow> jstring" where
  "replace_all fl r t p text =
     (case ms fl r (MState p text []) of
        [] \<Rightarrow> (case text of [] \<Rightarrow> [] | c # cs \<Rightarrow> c # replace_all fl r t (Some c) cs)
      | s # _ \<Rightarrow>
          expand t (caps s) @
          (if length (rest s) < length text then replace_all fl r t (prev s) (rest s)
           else (case text of [] \<Rightarrow> [] | c # cs \<Rightarrow> c # replace_all fl r t (Some c) cs)))"
  by pat_completeness auto
termination
  by (relation "measure (\<lambda>(fl, r, t, p, text). length text)") auto

definition replace_g :: "flags \<Rightarrow> regex \<Rightarrow> titem list \<Rightarrow> jstring \<Rightarrow> jstring" where
  "replace_g fl r t text = replace_all fl r t None text"

subsection \<open>Notation of the patterns\<close>

definition Str :: "string \<Rightarrow> regex" where
  "Str s = foldr (\<lambda>c r. Seq (Chr (of_char c)) r) s Eps"

fun Seqs :: "regex list \<Rightarrow> regex" where
  "Seqs [] = Eps"
| "Seqs [r] = r"
| "Seqs (r # rs) = Seq r (Seqs rs)"

fun Alts :: "regex list \<Rightarrow> regex" where
  "Alts [] = NCls [CSpace, CNonSpace]"
| "Alts [r] = r"
| "Alts (r # rs) = Alt r (Alts rs)"

definition Plus :: "regex \<Rightarrow> regex" where
  "Plus r = Seq r (Star True r)"

definition Opt :: "regex \<Rightarrow> regex" where
  "Opt r = Alt r Eps"

fun Upto :: "nat \<Rightarrow> regex \<Rightarrow> regex" where
  "Upto 0 r = Eps"
| "Upto (Suc n) r = Alt (Seq r (Upto n r)) Eps"

definition Words :: "string list \<Rightarrow> regex" where
  "Words ws = Alts (map Str ws)"

definition cc :: "char \<Rightarrow> citem" where
  "cc c = CChr (of_char c)"

definition cr :: "char \<Rightarrow> char \<Rightarrow> citem" where
  "cr a b = CRange (of_char a) (of_char b)"

definition Space :: regex where
  "Space = Cls [CSpace]"

definition AnyChar :: regex where
  "AnyChar = Cls [CSpace, CNonSpace]"

definition no_flags :: flags where
  "no_flags = \<lparr>ignoreCase = False, multiline = False\<rparr>"

definition flag_i :: flags where
  "flag_i = \<lparr>ignoreCase = True, multiline = False\<rparr>"

definition flag_m :: flags where
  "flag_m = \<lparr>ignoreCase = False, multiline = True\<rparr>"

section \<open>The JSON primitive\<close>

text \<open>
  \<^verbatim>\<open>JSON.parse\<close> is a primitive of the platform. The program depends on whether it
  returns or throws, which is decided by the JSON grammar (ECMA-404, as ECMA-262 applies
  it): a text is one value between optional white space (tab, line feed, carriage return,
  space); a value is an object, an array, a string, a number or one of \<^verbatim>\<open>true\<close>,
  \<^verbatim>\<open>false\<close>, \<^verbatim>\<open>null\<close>. \<open>json_valid\<close> recognises the grammar with a pushdown
  automaton that reads the text once, from left to right.
\<close>

datatype jctx = InArr | InObj

datatype jmode =
    ExpValue
  | ExpValueOrClose
  | ExpKeyOrClose
  | ExpKey
  | ExpColon
  | AfterValue
  | InStr bool
  | InEsc bool
  | InHex bool nat
  | NumMinus
  | NumZero
  | NumInt
  | NumDot
  | NumFrac
  | NumE
  | NumESign
  | NumExp
  | InLit jstring

definition is_json_ws :: "cu \<Rightarrow> bool" where
  "is_json_ws c \<longleftrightarrow> c = 9 \<or> c = 10 \<or> c = 13 \<or> c = 32"

definition is_digit :: "cu \<Rightarrow> bool" where
  "is_digit c \<longleftrightarrow> 48 \<le> c \<and> c \<le> 57"

definition is_hex :: "cu \<Rightarrow> bool" where
  "is_hex c \<longleftrightarrow> is_digit c \<or> (65 \<le> c \<and> c \<le> 70) \<or> (97 \<le> c \<and> c \<le> 102)"

text \<open>The start of a value: \<open>k\<close> tells whether a string read now is an object key.\<close>

definition start_value :: "jctx list \<Rightarrow> cu \<Rightarrow> (jmode \<times> jctx list) option" where
  "start_value st c =
     (if c = 123 then Some (ExpKeyOrClose, InObj # st)
      else if c = 91 then Some (ExpValueOrClose, InArr # st)
      else if c = 34 then Some (InStr False, st)
      else if c = 45 then Some (NumMinus, st)
      else if c = 48 then Some (NumZero, st)
      else if 49 \<le> c \<and> c \<le> 57 then Some (NumInt, st)
      else if c = 116 then Some (InLit (lit ''rue''), st)
      else if c = 102 then Some (InLit (lit ''alse''), st)
      else if c = 110 then Some (InLit (lit ''ull''), st)
      else None)"

definition after_value :: "jctx list \<Rightarrow> cu \<Rightarrow> (jmode \<times> jctx list) option" where
  "after_value st c =
     (if is_json_ws c then Some (AfterValue, st)
      else (case st of
          [] \<Rightarrow> None
        | InArr # st' \<Rightarrow>
            if c = 44 then Some (ExpValue, st)
            else if c = 93 then Some (AfterValue, st') else None
        | InObj # st' \<Rightarrow>
            if c = 44 then Some (ExpKey, st)
            else if c = 125 then Some (AfterValue, st') else None))"

fun json_step :: "jmode \<times> jctx list \<Rightarrow> cu \<Rightarrow> (jmode \<times> jctx list) option" where
  "json_step (ExpValue, st) c =
     (if is_json_ws c then Some (ExpValue, st) else start_value st c)"
| "json_step (ExpValueOrClose, st) c =
     (if is_json_ws c then Some (ExpValueOrClose, st)
      else if c = 93 then after_value st c
      else start_value st c)"
| "json_step (ExpKeyOrClose, st) c =
     (if is_json_ws c then Some (ExpKeyOrClose, st)
      else if c = 125 then after_value st c
      else if c = 34 then Some (InStr True, st) else None)"
| "json_step (ExpKey, st) c =
     (if is_json_ws c then Some (ExpKey, st)
      else if c = 34 then Some (InStr True, st) else None)"
| "json_step (ExpColon, st) c =
     (if is_json_ws c then Some (ExpColon, st)
      else if c = 58 then Some (ExpValue, st) else None)"
| "json_step (AfterValue, st) c = after_value st c"
| "json_step (InStr k, st) c =
     (if c = 34 then Some (if k then ExpColon else AfterValue, st)
      else if c = 92 then Some (InEsc k, st)
      else if c < 32 then None
      else Some (InStr k, st))"
| "json_step (InEsc k, st) c =
     (if c \<in> {34, 92, 47, 98, 102, 110, 114, 116} then Some (InStr k, st)
      else if c = 117 then Some (InHex k 4, st) else None)"
| "json_step (InHex k n, st) c =
     (if is_hex c then Some (if n \<le> 1 then InStr k else InHex k (n - 1), st) else None)"
| "json_step (NumMinus, st) c =
     (if c = 48 then Some (NumZero, st)
      else if 49 \<le> c \<and> c \<le> 57 then Some (NumInt, st) else None)"
| "json_step (NumZero, st) c =
     (if c = 46 then Some (NumDot, st)
      else if c = 101 \<or> c = 69 then Some (NumE, st)
      else after_value st c)"
| "json_step (NumInt, st) c =
     (if is_digit c then Some (NumInt, st)
      else if c = 46 then Some (NumDot, st)
      else if c = 101 \<or> c = 69 then Some (NumE, st)
      else after_value st c)"
| "json_step (NumDot, st) c = (if is_digit c then Some (NumFrac, st) else None)"
| "json_step (NumFrac, st) c =
     (if is_digit c then Some (NumFrac, st)
      else if c = 101 \<or> c = 69 then Some (NumE, st)
      else after_value st c)"
| "json_step (NumE, st) c =
     (if is_digit c then Some (NumExp, st)
      else if c = 43 \<or> c = 45 then Some (NumESign, st) else None)"
| "json_step (NumESign, st) c = (if is_digit c then Some (NumExp, st) else None)"
| "json_step (NumExp, st) c =
     (if is_digit c then Some (NumExp, st) else after_value st c)"
| "json_step (InLit [], st) c = after_value st c"
| "json_step (InLit (e # es), st) c = (if c = e then Some (InLit es, st) else None)"

fun json_run :: "jmode \<times> jctx list \<Rightarrow> jstring \<Rightarrow> (jmode \<times> jctx list) option" where
  "json_run q [] = Some q"
| "json_run q (c # cs) = (case json_step q c of None \<Rightarrow> None | Some q' \<Rightarrow> json_run q' cs)"

definition json_final :: "jmode \<times> jctx list \<Rightarrow> bool" where
  "json_final q \<longleftrightarrow>
     snd q = [] \<and> fst q \<in> {AfterValue, NumZero, NumInt, NumFrac, NumExp, InLit []}"

definition json_valid :: "jstring \<Rightarrow> bool" where
  "json_valid text \<longleftrightarrow>
     (case json_run (ExpValue, []) text of None \<Rightarrow> False | Some q \<Rightarrow> json_final q)"

section \<open>Language detection\<close>

datatype Language = JSON | JAVASCRIPT | TYPESCRIPT | HTML | CSS | XML | SQL | MARKDOWN

subsection \<open>The patterns of \<open>detectLanguage\<close>\<close>

text \<open>\<^verbatim>\<open>/^<\?xml\s/i\<close>\<close>

definition xmlDecl :: regex where
  "xmlDecl = Seqs [Bol, Str ''<?xml'', Space]"

text \<open>\<^verbatim>\<open>/^<!doctype\s+html/i\<close>\<close>

definition doctypeHtml :: regex where
  "doctypeHtml = Seqs [Bol, Str ''<!doctype'', Plus Space, Str ''html'']"

text \<open>\<^verbatim>\<open>/<\s*\/?\s*(html|head|body|div|span|p|a|ul|ol|li|table|tr|td|br|img|h[1-6]|form|input|button|script|style|meta|link|header|footer|nav|section|article)\b/i\<close>\<close>

definition htmlTags :: regex where
  "htmlTags = Seqs [Str ''<'', Star True Space, Opt (Str ''/''), Star True Space,
     Group 1 (Alts [Str ''html'', Str ''head'', Str ''body'', Str ''div'', Str ''span'',
       Str ''p'', Str ''a'', Str ''ul'', Str ''ol'', Str ''li'', Str ''table'', Str ''tr'',
       Str ''td'', Str ''br'', Str ''img'', Seq (Str ''h'') (Cls [cr CHR ''1'' CHR ''6'']),
       Str ''form'', Str ''input'', Str ''button'', Str ''script'', Str ''style'',
       Str ''meta'', Str ''link'', Str ''header'', Str ''footer'', Str ''nav'',
       Str ''section'', Str ''article'']),
     WordB]"

text \<open>\<^verbatim>\<open>/^\s*(SELECT|INSERT|UPDATE|DELETE|CREATE|ALTER|DROP|TRUNCATE|GRANT|REVOKE|BEGIN|DECLARE|WITH)\b/i\<close>\<close>

definition sqlStartPattern :: regex where
  "sqlStartPattern = Seqs [Bol, Star True Space,
     Group 1 (Words [''SELECT'', ''INSERT'', ''UPDATE'', ''DELETE'', ''CREATE'', ''ALTER'',
       ''DROP'', ''TRUNCATE'', ''GRANT'', ''REVOKE'', ''BEGIN'', ''DECLARE'', ''WITH'']),
     WordB]"

text \<open>\<^verbatim>\<open>/\b(FROM|WHERE|GROUP BY|ORDER BY|INNER JOIN|LEFT JOIN|RIGHT JOIN|VALUES|SET|PRIMARY KEY|FOREIGN KEY)\b/i\<close>\<close>

definition sqlClausePattern :: regex where
  "sqlClausePattern = Seqs [WordB,
     Group 1 (Words [''FROM'', ''WHERE'', ''GROUP BY'', ''ORDER BY'', ''INNER JOIN'',
       ''LEFT JOIN'', ''RIGHT JOIN'', ''VALUES'', ''SET'', ''PRIMARY KEY'', ''FOREIGN KEY'']),
     WordB]"

text \<open>\<^verbatim>\<open>/\b(const|var|let|function|return|import|export|class)\b/\<close>\<close>

definition isJsPattern :: regex where
  "isJsPattern = Seqs [WordB,
     Group 1 (Words [''const'', ''var'', ''let'', ''function'', ''return'', ''import'',
       ''export'', ''class'']),
     WordB]"

text \<open>\<^verbatim>\<open>/[^{}]+{\s*([a-zA-Z0-9-]+\s*:\s*[^;]+;\s*)+}/\<close>\<close>

definition cssRulePattern :: regex where
  "cssRulePattern = Seqs [Plus (NCls [cc CHR ''{'', cc CHR ''}'']), Str ''{'', Star True Space,
     Plus (Group 1 (Seqs [
       Plus (Cls [cr CHR ''a'' CHR ''z'', cr CHR ''A'' CHR ''Z'', cr CHR ''0'' CHR ''9'',
                  cc CHR ''-'']),
       Star True Space, Str '':'', Star True Space,
       Plus (NCls [cc CHR '';'']), Str '';'', Star True Space])),
     Str ''}'']"

text \<open>\<^verbatim>\<open>/^[^{}]+{\s*[\s\S]+\s*}$/m\<close>\<close>

definition cssBlockPattern :: regex where
  "cssBlockPattern = Seqs [Bol, Plus (NCls [cc CHR ''{'', cc CHR ''}'']), Str ''{'',
     Star True Space, Plus AnyChar, Star True Space, Str ''}'', Eol]"

text \<open>\<^verbatim>\<open>/\b(function|class|if|for|while|const|var|let|return|import|export|=>)\b/\<close>\<close>

definition isJsLikePattern :: regex where
  "isJsLikePattern = Seqs [WordB,
     Group 1 (Words [''function'', ''class'', ''if'', ''for'', ''while'', ''const'', ''var'',
       ''let'', ''return'', ''import'', ''export'', ''=>'']),
     WordB]"

text \<open>\<^verbatim>\<open>/"\s*:\s*"/m\<close>\<close>

definition quotedColonPattern :: regex where
  "quotedColonPattern =
     Seqs [Chr 34, Star True Space, Str '':'', Star True Space, Chr 34]"

text \<open>\<^verbatim>\<open>/(^#{1,6}\s)|(^\s*[-*+]\s)|(^>\s)|(\[.*\]\(.*\))/m\<close>\<close>

definition mdPattern :: regex where
  "mdPattern = Alts [
     Group 1 (Seqs [Bol, Str ''#'', Upto 5 (Str ''#''), Space]),
     Group 2 (Seqs [Bol, Star True Space, Cls [cc CHR ''-'', cc CHR ''*'', cc CHR ''+''], Space]),
     Group 3 (Seqs [Bol, Str ''>'', Space]),
     Group 4 (Seqs [Str ''['', Star True Dot, Str '']'', Str ''('', Star True Dot, Str '')''])]"

text \<open>\<^verbatim>\<open>/\b(interface|type|enum|namespace|implements|abstract|readonly|private|protected|public|as)\b/\<close>\<close>

definition tsKeywords :: regex where
  "tsKeywords = Seqs [WordB,
     Group 1 (Words [''interface'', ''type'', ''enum'', ''namespace'', ''implements'',
       ''abstract'', ''readonly'', ''private'', ''protected'', ''public'', ''as'']),
     WordB]"

text \<open>\<^verbatim>\<open>/:\s*(string|number|boolean|any|void|never|object|unknown)\b/\<close>\<close>

definition tsTypeAnnotation :: regex where
  "tsTypeAnnotation = Seqs [Str '':'', Star True Space,
     Group 1 (Words [''string'', ''number'', ''boolean'', ''any'', ''void'', ''never'',
       ''object'', ''unknown'']),
     WordB]"

text \<open>\<^verbatim>\<open>/<[A-Z][a-zA-Z0-9]*>/\<close>\<close>

definition tsGenerics :: regex where
  "tsGenerics = Seqs [Str ''<'', Cls [cr CHR ''A'' CHR ''Z''],
     Star True (Cls [cr CHR ''a'' CHR ''z'', cr CHR ''A'' CHR ''Z'', cr CHR ''0'' CHR ''9'']),
     Str ''>'']"

subsection \<open>\<open>detectLanguage\<close>\<close>

text \<open>
  The cascade on the trimmed text, test by test in the order of the source. The JSON test
  falls through when \<^verbatim>\<open>JSON.parse\<close> throws.
\<close>

definition detectMarkup :: "jstring \<Rightarrow> Language" where
  "detectMarkup trimmed =
     (if re_test flag_i xmlDecl trimmed then XML
      else if re_test flag_i doctypeHtml trimmed then HTML
      else if re_test flag_i htmlTags trimmed then HTML
      else XML)"

definition isSql :: "jstring \<Rightarrow> bool" where
  "isSql trimmed \<longleftrightarrow>
     (re_test flag_i sqlStartPattern trimmed \<or> re_test flag_i sqlClausePattern trimmed) \<and>
     \<not> re_test no_flags isJsPattern trimmed"

definition hasCssBlock :: "jstring \<Rightarrow> bool" where
  "hasCssBlock trimmed \<longleftrightarrow>
     re_test no_flags cssRulePattern trimmed \<or> re_test flag_m cssBlockPattern trimmed"

definition isCss :: "jstring \<Rightarrow> bool" where
  "isCss trimmed \<longleftrightarrow>
     hasCssBlock trimmed \<and> \<not> re_test no_flags isJsLikePattern trimmed \<and>
     \<not> re_test flag_m quotedColonPattern trimmed"

definition isTs :: "jstring \<Rightarrow> bool" where
  "isTs trimmed \<longleftrightarrow>
     re_test no_flags tsKeywords trimmed \<or> re_test no_flags tsTypeAnnotation trimmed \<or>
     re_test no_flags tsGenerics trimmed"

definition detectTrimmed :: "jstring \<Rightarrow> Language" where
  "detectTrimmed trimmed =
     (if trimmed = [] then JSON
      else if ((startsWith trimmed (lit ''{'') \<and> endsWith trimmed (lit ''}'')) \<or>
               (startsWith trimmed (lit ''['') \<and> endsWith trimmed (lit '']''))) \<and>
              json_valid trimmed then JSON
      else if startsWith trimmed (lit ''<'') then detectMarkup trimmed
      else if isSql trimmed then SQL
      else if isCss trimmed then CSS
      else if re_test flag_m mdPattern trimmed then MARKDOWN
      else if isTs trimmed then TYPESCRIPT
      else JAVASCRIPT)"

definition detectLanguage :: "jstring \<Rightarrow> Language" where
  "detectLanguage content = detectTrimmed (trim content)"

section \<open>Minification\<close>

datatype MinifyError = InvalidSyntax | EmptyResult

subsection \<open>The patterns of \<open>minifyCode\<close>\<close>

text \<open>\<^verbatim>\<open>/>\s+</g\<close>\<close>

definition tagGap :: regex where
  "tagGap = Seqs [Str ''>'', Plus Space, Str ''<'']"

text \<open>\<^verbatim>\<open>/\s{2,}/g\<close>\<close>

definition wsRun2 :: regex where
  "wsRun2 = Seqs [Space, Space, Star True Space]"

text \<open>\<^verbatim>\<open>/\/\*[\s\S]*?\*\//g\<close>\<close>

definition blockComment :: regex where
  "blockComment = Seqs [Str ''/*'', Star False AnyChar, Str ''*/'']"

text \<open>\<^verbatim>\<open>/\s+/g\<close>\<close>

definition wsRun :: regex where
  "wsRun = Plus Space"

text \<open>\<^verbatim>\<open>/\s*([:;{}])\s*/g\<close>\<close>

definition cssPunct :: regex where
  "cssPunct = Seqs [Star True Space,
     Group 1 (Cls [cc CHR '':'', cc CHR '';'', cc CHR ''{'', cc CHR ''}'']),
     Star True Space]"

text \<open>
  \<^verbatim>\<open>/\/\*[\s\S]*?\*\/|([^\\:]|^)\/\/.*$/gm\<close>: the first alternative is the pattern of
  \<open>blockComment\<close>; the second is the group \<^verbatim>\<open>([^\\:]|^)\<close> followed by
  \<^verbatim>\<open>\/\/.*$\<close>.
\<close>

definition jsLinePrefix :: regex where
  "jsLinePrefix = Group 1 (Alt (NCls [CChr 92, cc CHR '':'']) Bol)"

definition jsLineTail :: regex where
  "jsLineTail = Seqs [Str ''//'', Star True Dot, Eol]"

definition jsLineComment :: regex where
  "jsLineComment = Seq jsLinePrefix jsLineTail"

definition jsComment :: regex where
  "jsComment = Alt blockComment jsLineComment"

subsection \<open>\<open>minifyCode\<close> and its caller\<close>

text \<open>
  \<open>minifyCode\<close> returns the minified text or the exception it lets through. The only
  statement of its body that can throw is \<^verbatim>\<open>JSON.parse\<close>. What
  \<^verbatim>\<open>JSON.stringify(JSON.parse(code))\<close> prints for a valid text depends on the platform's
  conversion of numbers to and from floating point, so it is the parameter \<open>compact\<close>.
\<close>

definition minifyMarkup :: "jstring \<Rightarrow> jstring" where
  "minifyMarkup code =
     trim (replace_g no_flags wsRun2 [TLit (lit '' '')]
       (replace_g no_flags tagGap [TLit (lit ''><'')] code))"

definition minifyCss :: "jstring \<Rightarrow> jstring" where
  "minifyCss code =
     trim (replace_g no_flags cssPunct [TCap 1]
       (replace_g no_flags wsRun [TLit (lit '' '')]
         (replace_g no_flags blockComment [] code)))"

definition minifyJs :: "jstring \<Rightarrow> jstring" where
  "minifyJs code =
     trim (replace_g no_flags wsRun [TLit (lit '' '')]
       (replace_g flag_m jsComment [TCap 1] code))"

definition minifyCode :: "(jstring \<Rightarrow> jstring) \<Rightarrow> jstring \<Rightarrow> Language \<Rightarrow> MinifyError + jstring" where
  "minifyCode compact code language =
     (if trim code = [] then Inr []
      else (case language of
          JSON \<Rightarrow> if json_valid code then Inr (compact code) else Inl InvalidSyntax
        | HTML \<Rightarrow> Inr (minifyMarkup code)
        | XML \<Rightarrow> Inr (minifyMarkup code)
        | CSS \<Rightarrow> Inr (minifyCss code)
        | JAVASCRIPT \<Rightarrow> Inr (minifyJs code)
        | TYPESCRIPT \<Rightarrow> Inr (minifyJs code)
        | SQL \<Rightarrow> Inr (trim (replace_g no_flags wsRun [TLit (lit '' '')] code))
        | MARKDOWN \<Rightarrow> Inr (replace_g no_flags wsRun [TLit (lit '' '')] code)))"

text \<open>
  The \<^verbatim>\<open>try\<close> block of \<open>handleMinify\<close>: the call of \<open>minifyCode\<close> and the safety
  check on its result. The value is the text that the handler stores, or the error that it
  reports.
\<close>

definition handleMinify :: "(jstring \<Rightarrow> jstring) \<Rightarrow> jstring \<Rightarrow> Language \<Rightarrow> MinifyError + jstring" where
  "handleMinify compact inputCode language =
     (case minifyCode compact inputCode language of
        Inl e \<Rightarrow> Inl e
      | Inr minified \<Rightarrow>
          if minified = [] \<and> length (trim inputCode) > 0 then Inl EmptyResult
          else Inr minified)"

subsection \<open>Sample inputs\<close>

text \<open>The text \<^verbatim>\<open>{"q": "SELECT * FROM t"}\<close>; the code unit 34 is the double quote.\<close>

definition sqlInJson :: jstring where
  "sqlInJson = lit ''{'' @ [34] @ lit ''q'' @ [34] @ lit '': '' @ [34] @
     lit ''SELECT * FROM t'' @ [34] @ lit ''}''"




section \<open>Notions used to state the properties\<close>

text \<open>
  \<open>collapse_ws\<close> replaces every maximal run of white space by one space, and
  \<open>has_ws_run\<close> tells whether a text has two white-space code units in a row.
  \<open>is_css_punct\<close> is the class \<^verbatim>\<open>[:;{}]\<close>.
\<close>

function collapse_ws :: "jstring \<Rightarrow> jstring" where
  "collapse_ws [] = []"
| "collapse_ws (c # cs) =
     (if is_ws c then 32 # collapse_ws (dropWhile is_ws cs) else c # collapse_ws cs)"
  by pat_completeness auto
termination
  by (relation "measure length") (auto simp: length_dropWhile_le less_Suc_eq_le)

fun has_ws_run :: "jstring \<Rightarrow> bool" where
  "has_ws_run (a # b # r) \<longleftrightarrow> (is_ws a \<and> is_ws b) \<or> has_ws_run (b # r)"
| "has_ws_run _ \<longleftrightarrow> False"

definition is_css_punct :: "cu \<Rightarrow> bool" where
  "is_css_punct c \<longleftrightarrow> c = 58 \<or> c = 59 \<or> c = 123 \<or> c = 125"






definition last_of :: "cu option \<Rightarrow> jstring \<Rightarrow> cu option" where
  "last_of p u = (if u = [] then p else Some (last u))"

text \<open>
  The words of the specification about comments in JavaScript and TypeScript, as a scan of
  the text from left to right; \<open>p\<close> is the code unit before the current position.
  A block comment runs from \<^verbatim>\<open>/*\<close> to the first \<^verbatim>\<open>*/\<close> after it
  (\<open>block_end\<close> is the rest of the text after the comment); a line comment runs from
  \<^verbatim>\<open>//\<close> to the end of the line (\<open>skip_line\<close>) and is removed unless the code
  unit before it is \<open>blocked\<close>. \<open>colon_blocked\<close> is the guard in the words of the
  specification, \<open>js_blocked\<close> the guard with the backslash added.
  \<open>has_triple_slash\<close> tells whether a text has three slashes in a row.
  \<open>prefix_case\<close> and \<open>at_line_start\<close> are the two ways in which the group of the line
  comment pattern can match.
\<close>

fun find_close :: "jstring \<Rightarrow> jstring option" where
  "find_close (c # d # r) = (if c = 42 \<and> d = 47 then Some r else find_close (d # r))"
| "find_close _ = None"

fun block_end :: "jstring \<Rightarrow> jstring option" where
  "block_end (a # b # r) = (if a = 47 \<and> b = 42 then find_close r else None)"
| "block_end _ = None"

fun starts_line_comment :: "jstring \<Rightarrow> bool" where
  "starts_line_comment (a # b # r) \<longleftrightarrow> a = 47 \<and> b = 47"
| "starts_line_comment _ \<longleftrightarrow> False"

definition skip_line :: "jstring \<Rightarrow> jstring" where
  "skip_line x = dropWhile (\<lambda>d. \<not> is_lt d) x"

function strip_comments :: "(cu \<Rightarrow> bool) \<Rightarrow> cu option \<Rightarrow> jstring \<Rightarrow> jstring" where
  "strip_comments blocked p [] = []"
| "strip_comments blocked p (c # cs) =
     (case block_end (c # cs) of
        Some r \<Rightarrow> strip_comments blocked (Some 47) r
      | None \<Rightarrow>
          if starts_line_comment (c # cs) \<and> (case p of None \<Rightarrow> True | Some d \<Rightarrow> \<not> blocked d)
          then strip_comments blocked (Some 47) (skip_line (tl cs))
          else c # strip_comments blocked (Some c) cs)"
  by pat_completeness auto
termination
proof (relation "measure (\<lambda>(b, p, x). length x)")
  show "wf (measure (\<lambda>(b, p, x). length x))" by simp
next
  fix blocked :: "cu \<Rightarrow> bool" and p :: "cu option" and c :: cu and cs r :: jstring
  assume e: "block_end (c # cs) = Some r"
  have f: "find_close y = Some r \<Longrightarrow> length r < length y" for y
    by (induction y rule: find_close.induct) (auto split: if_splits)
  have "length r < length (c # cs)"
  proof (cases cs)
    case Nil
    with e show ?thesis by simp
  next
    case (Cons d y)
    with e have "find_close y = Some r" by (simp split: if_splits)
    from f[OF this] Cons show ?thesis by simp
  qed
  then show "((blocked, Some 47, r), (blocked, p, c # cs)) \<in> measure (\<lambda>(b, p, x). length x)"
    by simp
next
  fix blocked :: "cu \<Rightarrow> bool" and p :: "cu option" and c :: cu and cs :: jstring
  have "length (skip_line (tl cs)) \<le> length (tl cs)"
    unfolding skip_line_def by (rule length_dropWhile_le)
  then show "((blocked, Some 47, skip_line (tl cs)), (blocked, p, c # cs))
     \<in> measure (\<lambda>(b, p, x). length x)"
    by (cases cs) simp_all
next
  fix blocked :: "cu \<Rightarrow> bool" and p :: "cu option" and c :: cu and cs :: jstring
  show "((blocked, Some c, cs), (blocked, p, c # cs)) \<in> measure (\<lambda>(b, p, x). length x)"
    by simp
qed


definition js_blocked :: "cu \<Rightarrow> bool" where
  "js_blocked d \<longleftrightarrow> d = 58 \<or> d = 92"

fun has_triple_slash :: "jstring \<Rightarrow> bool" where
  "has_triple_slash (a # b # c # r) \<longleftrightarrow>
     (a = 47 \<and> b = 47 \<and> c = 47) \<or> has_triple_slash (b # c # r)"
| "has_triple_slash _ \<longleftrightarrow> False"


fun prefix_case :: "jstring \<Rightarrow> bool" where
  "prefix_case [] \<longleftrightarrow> False"
| "prefix_case (c # r) \<longleftrightarrow> \<not> js_blocked c \<and> starts_line_comment r"

definition at_line_start :: "cu option \<Rightarrow> bool" where
  "at_line_start p \<longleftrightarrow> (case p of None \<Rightarrow> True | Some d \<Rightarrow> is_lt d)"

text \<open>
  For the JSON automaton: \<open>close_of\<close> is the bracket that closes a context, and
  \<open>json_wf\<close> says that the rest of a literal that a state expects consists of word
  characters, as it does in every state that the automaton reaches.
\<close>

fun close_of :: "jctx \<Rightarrow> cu" where
  "close_of InArr = 93"
| "close_of InObj = 125"

definition json_wf :: "jmode \<times> jctx list \<Rightarrow> bool" where
  "json_wf q \<longleftrightarrow> (case fst q of InLit es \<Rightarrow> list_all is_word es | _ \<Rightarrow> True)"

section \<open>Properties of \<open>trim\<close> and of blank texts\<close>

declare ms.simps(12) [simp del]
declare replace_all.simps [simp del]


lemma dropWhile_all_iff: "(\<forall>x\<in>set (dropWhile P s). P x) \<longleftrightarrow> (\<forall>x\<in>set s. P x)"
  by (induction s) auto

lemma trim_Nil_iff: "trim s = [] \<longleftrightarrow> (\<forall>c\<in>set s. is_ws c)"
  by (simp add: trim_def dropWhile_eq_Nil_conv dropWhile_all_iff)

lemma dropWhile_snoc_keep: "\<not> P a \<Longrightarrow> \<exists>u. dropWhile P (ys @ [a]) = u @ [a]"
  by (induction ys) auto

lemma dropWhile_rev_dropWhile:
  assumes "t = [] \<or> \<not> P (hd t)"
  shows "dropWhile P (rev (dropWhile P (rev t))) = rev (dropWhile P (rev t))"
proof (cases t)
  case Nil
  then show ?thesis by simp
next
  case (Cons a t')
  with assms have na: "\<not> P a" by simp
  from na dropWhile_snoc_keep[of P a "rev t'"] obtain u
    where "dropWhile P (rev t' @ [a]) = u @ [a]" by blast
  with Cons na show ?thesis by simp
qed

lemma trim_idem: "trim (trim s) = trim s"
proof -
  have h: "dropWhile is_ws s = [] \<or> \<not> is_ws (hd (dropWhile is_ws s))"
    using hd_dropWhile[of is_ws s] by blast
  show ?thesis
    unfolding trim_def
    using h dropWhile_rev_dropWhile[of "dropWhile is_ws s" is_ws] by simp
qed

lemma is_ws_range: "is_ws c \<Longrightarrow> (9 \<le> c \<and> c \<le> 13) \<or> c = 32 \<or> 160 \<le> c"
  unfolding is_ws_def by arith

lemma json_step_blank:
  "is_ws c \<Longrightarrow>
     json_step (ExpValue, []) c = None \<or> json_step (ExpValue, []) c = Some (ExpValue, [])"
  using is_ws_range[of c] by (auto simp: start_value_def is_json_ws_def)

lemma json_run_blank:
  "\<forall>c\<in>set s. is_ws c \<Longrightarrow>
     json_run (ExpValue, []) s = None \<or> json_run (ExpValue, []) s = Some (ExpValue, [])"
proof (induction s)
  case Nil
  then show ?case by simp
next
  case (Cons c s)
  then have "is_ws c" by simp
  from json_step_blank[OF this] Cons show ?case by auto
qed

lemma blank_not_json: "trim s = [] \<Longrightarrow> \<not> json_valid s"
  using json_run_blank[of s] by (auto simp: trim_Nil_iff json_valid_def json_final_def)

section \<open>Valid JSON texts\<close>

lemma json_run_append:
  "json_run q (u @ v) = (case json_run q u of None \<Rightarrow> None | Some q' \<Rightarrow> json_run q' v)"
  by (induction u arbitrary: q) (simp_all split: option.split)

lemma json_valid_drop_leading: "json_valid t \<Longrightarrow> json_valid (dropWhile is_ws t)"
proof (induction t)
  case Nil
  then show ?case by simp
next
  case (Cons c t)
  show ?case
  proof (cases "is_ws c")
    case True
    from json_step_blank[OF True] Cons.prems
    have "json_step (ExpValue, []) c = Some (ExpValue, [])"
      by (auto simp: json_valid_def)
    with Cons.prems have "json_valid t" by (simp add: json_valid_def)
    with Cons.IH True show ?thesis by simp
  next
    case False
    with Cons.prems show ?thesis by simp
  qed
qed

lemma start_value_wf: "start_value st c = Some q2 \<Longrightarrow> json_wf q2"
  by (auto simp: start_value_def json_wf_def lit_def is_word_def split: if_splits)

lemma after_value_wf: "after_value st c = Some q2 \<Longrightarrow> json_wf q2"
  by (auto simp: after_value_def json_wf_def split: if_splits list.splits jctx.splits)

lemma json_step_wf:
  assumes "json_wf q" and "json_step q c = Some q2"
  shows "json_wf q2"
proof -
  obtain m st where q: "q = (m, st)" by (cases q)
  show ?thesis
  proof (cases m)
    case (InLit es)
    with assms q show ?thesis
      by (cases es) (auto simp: json_wf_def dest: after_value_wf split: if_splits)
  qed (use assms q in \<open>auto simp: json_wf_def dest: start_value_wf after_value_wf
         split: if_splits\<close>)
qed

lemma json_run_wf: "json_wf q \<Longrightarrow> json_run q s = Some q2 \<Longrightarrow> json_wf q2"
proof (induction s arbitrary: q)
  case Nil
  then show ?case by simp
next
  case (Cons c s)
  from Cons.prems(2) obtain q1 where a: "json_step q c = Some q1" and b: "json_run q1 s = Some q2"
    by (auto split: option.splits)
  from Cons.IH[OF json_step_wf[OF Cons.prems(1) a] b] show ?case .
qed

lemma ws_not_word: "is_ws c \<Longrightarrow> \<not> is_word c"
  by (auto simp: is_ws_def is_word_def)

lemma after_value_final:
  "after_value st c = Some q2 \<Longrightarrow> is_ws c \<Longrightarrow> json_final q2 \<Longrightarrow> st = []"
  using is_ws_range[of c]
  by (auto simp: after_value_def json_final_def split: if_splits list.splits jctx.splits)

lemma start_value_not_final:
  "start_value st c = Some q2 \<Longrightarrow> is_ws c \<Longrightarrow> False"
  using is_ws_range[of c] by (auto simp: start_value_def split: if_splits)

lemma json_final_before_ws:
  assumes w: "json_wf q" and s: "json_step q c = Some q2" and c: "is_ws c" and f: "json_final q2"
  shows "json_final q"
proof -
  obtain m st where q: "q = (m, st)" by (cases q)
  from is_ws_range[OF c] have r: "(9 \<le> c \<and> c \<le> 13) \<or> c = 32 \<or> 160 \<le> c" .
  show ?thesis
  proof (cases m)
    case (InLit es)
    show ?thesis
    proof (cases es)
      case Nil
      with InLit s c f q after_value_final[of st c q2] show ?thesis
        by (simp add: json_final_def)
    next
      case (Cons e es')
      with InLit w q have "is_word e" by (simp add: json_wf_def)
      with ws_not_word[OF c] Cons InLit s q show ?thesis by (auto split: if_splits)
    qed
  next
    case AfterValue
    with s c f q after_value_final[of st c q2] show ?thesis by (simp add: json_final_def)
  next
    case NumZero
    with s c f q r after_value_final[of st c q2] show ?thesis
      by (auto simp: json_final_def split: if_splits)
  next
    case NumInt
    with s c f q r after_value_final[of st c q2] show ?thesis
      by (auto simp: json_final_def is_digit_def split: if_splits)
  next
    case NumFrac
    with s c f q r after_value_final[of st c q2] show ?thesis
      by (auto simp: json_final_def is_digit_def split: if_splits)
  next
    case NumExp
    with s c f q r after_value_final[of st c q2] show ?thesis
      by (auto simp: json_final_def is_digit_def split: if_splits)
  next
    case ExpValue
    with s c f q start_value_not_final[of st c q2] show ?thesis
      by (auto simp: json_final_def split: if_splits)
  next
    case ExpValueOrClose
    with s c f q r start_value_not_final[of st c q2] show ?thesis
      by (auto simp: json_final_def split: if_splits)
  next
    case ExpKeyOrClose
    with s c f q r show ?thesis by (auto simp: json_final_def split: if_splits)
  next
    case ExpKey
    with s c f q r show ?thesis by (auto simp: json_final_def split: if_splits)
  next
    case ExpColon
    with s c f q r show ?thesis by (auto simp: json_final_def split: if_splits)
  next
    case (InStr k)
    with s c f q r show ?thesis by (auto simp: json_final_def split: if_splits)
  next
    case (InEsc k)
    with s c f q r show ?thesis by (auto simp: json_final_def split: if_splits)
  next
    case (InHex k n)
    with s c f q r show ?thesis by (auto simp: json_final_def split: if_splits)
  next
    case NumMinus
    with s c f q r show ?thesis by (auto simp: json_final_def split: if_splits)
  next
    case NumDot
    with s c f q r show ?thesis by (auto simp: json_final_def is_digit_def split: if_splits)
  next
    case NumE
    with s c f q r show ?thesis by (auto simp: json_final_def is_digit_def split: if_splits)
  next
    case NumESign
    with s c f q r show ?thesis by (auto simp: json_final_def is_digit_def split: if_splits)
  qed
qed

lemma json_final_before_blank:
  "json_wf q \<Longrightarrow> \<forall>c\<in>set w. is_ws c \<Longrightarrow> json_run q w = Some qf \<Longrightarrow> json_final qf \<Longrightarrow>
     json_final q"
proof (induction w arbitrary: q)
  case Nil
  then show ?case by simp
next
  case (Cons c w)
  from Cons.prems(3) obtain q2 where s: "json_step q c = Some q2" and r: "json_run q2 w = Some qf"
    by (auto split: option.splits)
  from Cons.prems(2) have c: "is_ws c" and w: "\<forall>c\<in>set w. is_ws c" by simp_all
  from Cons.IH[OF json_step_wf[OF Cons.prems(1) s] w r Cons.prems(4)] have "json_final q2" .
  from json_final_before_ws[OF Cons.prems(1) s c this] show ?case .
qed

lemma trim_split: "\<exists>w. dropWhile is_ws t = trim t @ w \<and> (\<forall>c\<in>set w. is_ws c)"
proof -
  let ?t = "dropWhile is_ws t"
  have "rev (takeWhile is_ws (rev ?t) @ dropWhile is_ws (rev ?t)) = ?t"
    by (simp only: takeWhile_dropWhile_id rev_rev_ident)
  then have "?t = trim t @ rev (takeWhile is_ws (rev ?t))"
    by (simp only: rev_append trim_def)
  moreover have "\<forall>c\<in>set (rev (takeWhile is_ws (rev ?t))). is_ws c"
    by (auto dest: set_takeWhileD)
  ultimately show ?thesis by blast
qed

lemma json_valid_trim: "json_valid t \<Longrightarrow> json_valid (trim t)"
proof -
  assume "json_valid t"
  then have v: "json_valid (dropWhile is_ws t)" by (rule json_valid_drop_leading)
  from trim_split[of t] obtain w where
    e: "dropWhile is_ws t = trim t @ w" and w: "\<forall>c\<in>set w. is_ws c" by blast
  from v obtain q1 qf where
    r1: "json_run (ExpValue, []) (trim t) = Some q1" and r2: "json_run q1 w = Some qf"
    and f: "json_final qf"
    unfolding e json_valid_def json_run_append by (auto split: option.splits)
  have "json_wf (ExpValue, [])" by (simp add: json_wf_def)
  from json_run_wf[OF this r1] have "json_wf q1" .
  from json_final_before_blank[OF this w r2 f] r1 show ?thesis by (simp add: json_valid_def)
qed


lemma start_value_keeps_bottom:
  "start_value (st @ [b]) c = Some (m1, st1) \<Longrightarrow> \<exists>st'. st1 = st' @ [b]"
  by (auto simp: start_value_def split: if_splits)

lemma after_value_keeps_bottom:
  "after_value (st @ [b]) c = Some (m1, st1) \<Longrightarrow>
     (\<exists>st'. st1 = st' @ [b]) \<or> (st1 = [] \<and> m1 = AfterValue \<and> c = close_of b)"
proof (cases st)
  case Nil
  assume "after_value (st @ [b]) c = Some (m1, st1)"
  with Nil show ?thesis
    by (cases b) (auto simp: after_value_def split: if_splits)
next
  case (Cons x st'')
  assume "after_value (st @ [b]) c = Some (m1, st1)"
  with Cons show ?thesis
    by (cases x) (auto simp: after_value_def split: if_splits)
qed

lemma json_step_keeps_bottom:
  assumes "json_step (m, st @ [b]) c = Some (m1, st1)"
  shows "(\<exists>st'. st1 = st' @ [b]) \<or> (st1 = [] \<and> m1 = AfterValue \<and> c = close_of b)"
proof (cases m)
  case (InLit es)
  with assms show ?thesis
    by (cases es) (auto dest: after_value_keeps_bottom split: if_splits)
qed (use assms in \<open>auto dest: after_value_keeps_bottom start_value_keeps_bottom
       split: if_splits\<close>)

lemma json_run_closes:
  "json_run (m, st @ [b]) s = Some (m', []) \<Longrightarrow>
     \<exists>u v. s = u @ close_of b # v \<and> json_run (AfterValue, []) v = Some (m', [])"
proof (induction s arbitrary: m st)
  case Nil
  then show ?case by simp
next
  case (Cons c s)
  from Cons.prems obtain m1 st1 where
    a: "json_step (m, st @ [b]) c = Some (m1, st1)" and r: "json_run (m1, st1) s = Some (m', [])"
    by (auto split: option.splits)
  from json_step_keeps_bottom[OF a] show ?case
  proof
    assume "\<exists>st'. st1 = st' @ [b]"
    then obtain st' where "st1 = st' @ [b]" by blast
    with Cons.IH[of m1 st'] r obtain u v where
      "s = u @ close_of b # v" "json_run (AfterValue, []) v = Some (m', [])" by blast
    then have "c # s = (c # u) @ close_of b # v \<and> json_run (AfterValue, []) v = Some (m', [])"
      by simp
    then show ?thesis by blast
  next
    assume "st1 = [] \<and> m1 = AfterValue \<and> c = close_of b"
    with r have "c # s = [] @ close_of b # s \<and> json_run (AfterValue, []) s = Some (m', [])"
      by simp
    then show ?thesis by blast
  qed
qed

lemma json_run_after_top:
  "json_run (AfterValue, []) v = Some q \<Longrightarrow> \<forall>c\<in>set v. is_ws c"
proof (induction v)
  case Nil
  then show ?case by simp
next
  case (Cons c v)
  then show ?case
    by (auto simp: after_value_def is_json_ws_def is_ws_def split: if_splits option.splits)
qed

lemma trim_last: "trim t \<noteq> [] \<Longrightarrow> \<not> is_ws (last (trim t))"
proof -
  assume n: "trim t \<noteq> []"
  then have d: "dropWhile is_ws (rev (dropWhile is_ws t)) \<noteq> []" by (simp add: trim_def)
  have "last (trim t) = hd (dropWhile is_ws (rev (dropWhile is_ws t)))"
    using d by (simp add: trim_def last_rev)
  with hd_dropWhile[OF d] show ?thesis by simp
qed

lemma trim_hd: "dropWhile is_ws t = c # r \<Longrightarrow> \<exists>r'. trim t = c # r'"
proof -
  assume e: "dropWhile is_ws t = c # r"
  with hd_dropWhile[of is_ws t] have nc: "\<not> is_ws c" by simp
  from trim_split[of t] obtain w where
    s: "dropWhile is_ws t = trim t @ w" and w: "\<forall>c\<in>set w. is_ws c" by blast
  show ?thesis
  proof (cases "trim t")
    case Nil
    with s e w nc show ?thesis by auto
  next
    case (Cons a r')
    with s e show ?thesis by simp
  qed
qed

lemma valid_bracket_end:
  assumes v: "json_valid (trim t)" and h: "trim t = c # r"
    and o: "(c = 123 \<and> b = InObj) \<or> (c = 91 \<and> b = InArr)"
  shows "last (trim t) = close_of b"
proof -
  from o have st: "json_step (ExpValue, []) c =
      Some (if b = InObj then ExpKeyOrClose else ExpValueOrClose, [] @ [b])"
    by (auto simp: start_value_def is_json_ws_def)
  from v h st obtain qf where
    r: "json_run (if b = InObj then ExpKeyOrClose else ExpValueOrClose, [] @ [b]) r = Some qf"
    and f: "json_final qf"
    by (auto simp: json_valid_def split: option.splits)
  obtain m' where qf: "qf = (m', [])" using f by (cases qf) (simp add: json_final_def)
  from json_run_closes[OF r[unfolded qf]] obtain u v' where
    e: "r = u @ close_of b # v'" and a: "json_run (AfterValue, []) v' = Some (m', [])" by blast
  from json_run_after_top[OF a] have w: "\<forall>c\<in>set v'. is_ws c" .
  have "v' = []"
  proof (rule ccontr)
    assume "v' \<noteq> []"
    with h e have "last (trim t) = last v'" by simp
    with w \<open>v' \<noteq> []\<close> have "is_ws (last (trim t))" by simp
    with trim_last[of t] h show False by simp
  qed
  with h e show ?thesis by simp
qed

lemma endsWith_last: "s \<noteq> [] \<Longrightarrow> last s = c \<Longrightarrow> endsWith s [c]"
proof -
  assume n: "s \<noteq> []" and l: "last s = c"
  then have "s = butlast s @ [c]" by (metis append_butlast_last_id)
  then have "drop (length s - 1) s = [c]"
    by (metis append_eq_conv_conj length_butlast)
  with n show ?thesis by (cases s) (simp_all add: endsWith_def)
qed

lemma valid_object_or_array_brackets:
  assumes v: "json_valid t" and d: "dropWhile is_ws t = c # r" and o: "c = 123 \<or> c = 91"
  shows "json_valid (trim t) \<and>
    ((startsWith (trim t) (lit ''{'') \<and> endsWith (trim t) (lit ''}'')) \<or>
     (startsWith (trim t) (lit ''['') \<and> endsWith (trim t) (lit '']'')))"
proof -
  from json_valid_trim[OF v] have vt: "json_valid (trim t)" .
  from trim_hd[OF d] obtain r' where h: "trim t = c # r'" by blast
  from o show ?thesis
  proof
    assume c: "c = 123"
    from valid_bracket_end[OF vt h, of InObj] c have "last (trim t) = 125" by simp
    from endsWith_last[OF _ this] h c vt show ?thesis
      by (simp add: startsWith_def lit_def)
  next
    assume c: "c = 91"
    from valid_bracket_end[OF vt h, of InArr] c have "last (trim t) = 93" by simp
    from endsWith_last[OF _ this] h c vt show ?thesis
      by (simp add: startsWith_def lit_def)
  qed
qed

section \<open>The matcher on the building blocks of the patterns\<close>

lemma clear_caps_Nil [simp]: "clear_caps [] s = s"
  by (cases s) (simp add: clear_caps_def)

lemma is_ws_swapcase [simp]: "is_ws (swapcase c) = is_ws c"
  unfolding is_ws_def by (simp; arith)


declare swapcase.simps [simp del]

lemma ms_Space [simp]:
  "ms fl Space (MState p x cs) =
     (case x of [] \<Rightarrow> [] | c # r \<Rightarrow> if is_ws c then [MState (Some c) r cs] else [])"
  by (simp add: Space_def step1_def cls_has_def split: list.split)

lemma groups_Space [simp]: "groups Space = []"
  by (simp add: Space_def)

lemma ms_star_space_Nil [simp]:
  "ms fl (Star g Space) (MState p [] cs) = [MState p [] cs]"
  by (subst ms.simps(12)) simp

lemma ms_star_space_Cons:
  "ms fl (Star g Space) (MState p (c # x) cs) =
     (if is_ws c
      then (if g then ms fl (Star g Space) (MState (Some c) x cs) @ [MState p (c # x) cs]
            else MState p (c # x) cs # ms fl (Star g Space) (MState (Some c) x cs))
      else [MState p (c # x) cs])"
  by (subst ms.simps(12)) simp

lemma ms_star_space_hd:
  "\<exists>q rs. ms fl (Star True Space) (MState p x cs) = MState q (dropWhile is_ws x) cs # rs"
proof (induction x arbitrary: p)
  case Nil
  then show ?case by simp
next
  case (Cons c x)
  show ?case
  proof (cases "is_ws c")
    case True
    from Cons[of "Some c"] obtain q rs where
      "ms fl (Star True Space) (MState (Some c) x cs) = MState q (dropWhile is_ws x) cs # rs"
      by blast
    with True show ?thesis by (simp add: ms_star_space_Cons)
  next
    case False
    then show ?thesis by (simp add: ms_star_space_Cons)
  qed
qed

lemma star_space_results:
  "s' \<in> set (ms fl (Star g Space) (MState p x cs)) \<Longrightarrow> caps s' = cs \<and> suffix (rest s') x"
proof (induction x arbitrary: p)
  case Nil
  then show ?case by simp
next
  case (Cons c x)
  from Cons.prems have
    "s' = MState p (c # x) cs \<or> s' \<in> set (ms fl (Star g Space) (MState (Some c) x cs))"
    by (auto simp: ms_star_space_Cons split: if_splits)
  then show ?case
  proof
    assume "s' = MState p (c # x) cs"
    then show ?thesis by simp
  next
    assume "s' \<in> set (ms fl (Star g Space) (MState (Some c) x cs))"
    from Cons.IH[OF this] show ?thesis by (simp add: suffix_Cons)
  qed
qed



lemma last_of_Cons: "last_of p (c # u) = last_of (Some c) u"
  by (simp add: last_of_def)

lemma Str_Cons: "Str (a # w) = Seq (Chr (of_char a)) (Str w)"
  by (simp add: Str_def)

lemma Str_Nil: "Str [] = Eps"
  by (simp add: Str_def)




section \<open>White space after minification\<close>

lemma ms_wsRun:
  "ms no_flags wsRun (MState p x cs) =
     (case x of [] \<Rightarrow> []
      | c # r \<Rightarrow> if is_ws c then ms no_flags (Star True Space) (MState (Some c) r cs) else [])"
  by (simp add: wsRun_def Plus_def split: list.split)

lemma replace_wsRun:
  "replace_all no_flags wsRun [TLit [32]] p x = collapse_ws x"
proof (induction x arbitrary: p rule: collapse_ws.induct)
  case 1
  show ?case by (subst replace_all.simps) (simp add: ms_wsRun)
next
  case (2 c cs)
  show ?case
  proof (cases "is_ws c")
    case True
    from ms_star_space_hd[of no_flags "Some c" cs "[]"] obtain q rs where
      h: "ms no_flags (Star True Space) (MState (Some c) cs []) = MState q (dropWhile is_ws cs) [] # rs"
      by blast
    have "length (dropWhile is_ws cs) < Suc (length cs)"
      by (simp add: length_dropWhile_le less_Suc_eq_le)
    with True h 2(1)[OF True, of q] show ?thesis
      by (subst replace_all.simps) (simp add: ms_wsRun)
  next
    case False
    with 2(2)[OF False, of "Some c"] show ?thesis
      by (subst replace_all.simps) (simp add: ms_wsRun)
  qed
qed

lemma collapse_ws_hd:
  "collapse_ws x \<noteq> [] \<Longrightarrow> is_ws (hd (collapse_ws x)) \<Longrightarrow> x \<noteq> [] \<and> is_ws (hd x)"
  by (cases x) (auto split: if_splits)

lemma has_ws_run_Cons:
  "has_ws_run (a # x) \<longleftrightarrow> (x \<noteq> [] \<and> is_ws a \<and> is_ws (hd x)) \<or> has_ws_run x"
  by (cases x) auto

lemma collapse_ws_no_run: "\<not> has_ws_run (collapse_ws x)"
proof (induction x rule: collapse_ws.induct)
  case 1
  show ?case by simp
next
  case (2 c cs)
  show ?case
  proof (cases "is_ws c")
    case True
    have "\<not> (collapse_ws (dropWhile is_ws cs) \<noteq> [] \<and> is_ws (hd (collapse_ws (dropWhile is_ws cs))))"
      using collapse_ws_hd[of "dropWhile is_ws cs"] hd_dropWhile[of is_ws cs] by blast
    with True 2(1) show ?thesis by (simp add: has_ws_run_Cons)
  next
    case False
    with 2(2) show ?thesis by (simp add: has_ws_run_Cons)
  qed
qed


lemma has_ws_run_iff:
  "has_ws_run x \<longleftrightarrow> (\<exists>u a b v. x = u @ a # b # v \<and> is_ws a \<and> is_ws b)"
proof
  show "has_ws_run x \<Longrightarrow> \<exists>u a b v. x = u @ a # b # v \<and> is_ws a \<and> is_ws b"
  proof (induction x rule: has_ws_run.induct)
    case (1 a b r)
    show ?case
    proof (cases "is_ws a \<and> is_ws b")
      case True
      then have "a # b # r = [] @ a # b # r \<and> is_ws a \<and> is_ws b" by simp
      then show ?thesis by blast
    next
      case False
      with 1 obtain u a' b' v where "b # r = u @ a' # b' # v" "is_ws a'" "is_ws b'" by auto
      then have "a # b # r = (a # u) @ a' # b' # v \<and> is_ws a' \<and> is_ws b'" by simp
      then show ?thesis by blast
    qed
  qed simp_all
next
  assume "\<exists>u a b v. x = u @ a # b # v \<and> is_ws a \<and> is_ws b"
  then obtain u a b v where x: "x = u @ a # b # v" and w: "is_ws a" "is_ws b" by blast
  from w show "has_ws_run x" unfolding x
    by (induction u) (simp_all add: has_ws_run_Cons)
qed

lemma has_ws_run_rev [simp]: "has_ws_run (rev x) = has_ws_run x"
proof -
  have "has_ws_run y \<Longrightarrow> has_ws_run (rev y)" for y
  proof -
    assume "has_ws_run y"
    then obtain u a b v where "y = u @ a # b # v" "is_ws a" "is_ws b"
      unfolding has_ws_run_iff by blast
    then have "rev y = rev v @ b # a # rev u \<and> is_ws b \<and> is_ws a" by simp
    then show "has_ws_run (rev y)" unfolding has_ws_run_iff by blast
  qed
  from this[of x] this[of "rev x"] show ?thesis by auto
qed

lemma has_ws_run_suffix: "suffix y x \<Longrightarrow> has_ws_run y \<Longrightarrow> has_ws_run x"
  unfolding has_ws_run_iff suffix_def by (metis append.assoc)

lemma trim_no_run: "\<not> has_ws_run x \<Longrightarrow> \<not> has_ws_run (trim x)"
proof -
  assume a: "\<not> has_ws_run x"
  have "\<not> has_ws_run (dropWhile is_ws x)"
    using a has_ws_run_suffix[OF suffix_dropWhile[of is_ws x]] by blast
  then have "\<not> has_ws_run (rev (dropWhile is_ws x))" by simp
  then have "\<not> has_ws_run (dropWhile is_ws (rev (dropWhile is_ws x)))"
    using has_ws_run_suffix[OF suffix_dropWhile[of is_ws "rev (dropWhile is_ws x)"]] by blast
  then show ?thesis by (simp add: trim_def)
qed

lemma css_punct_not_ws: "is_css_punct c \<Longrightarrow> \<not> is_ws c"
  by (auto simp: is_css_punct_def is_ws_def)

lemma ms_punct_group:
  "ms no_flags (Group 1 (Cls [cc CHR '':'', cc CHR '';'', cc CHR ''{'', cc CHR ''}''])) (MState p x cs) =
     (case x of [] \<Rightarrow> []
      | q # r \<Rightarrow> if is_css_punct q
                 then [MState (Some q) r ((1, [q]) # filter (\<lambda>p. fst p \<noteq> 1) cs)] else [])"
  by (auto simp: step1_def cls_has_def no_flags_def cc_def is_css_punct_def set_cap_def
      consumed_def split: list.split)

lemma cssPunct_results:
  assumes "s' \<in> set (ms no_flags cssPunct (MState p x []))"
  shows "\<exists>q. \<not> is_ws q \<and> caps s' = [(1, [q])] \<and> suffix (rest s') x"
proof -
  from assms obtain s1 s2 where
    s1: "s1 \<in> set (ms no_flags (Star True Space) (MState p x []))" and
    s2: "s2 \<in> set (ms no_flags (Group 1 (Cls [cc CHR '':'', cc CHR '';'', cc CHR ''{'', cc CHR ''}''])) s1)" and
    s3: "s' \<in> set (ms no_flags (Star True Space) s2)"
    by (auto simp: cssPunct_def)
  from star_space_results[OF s1] have c1: "caps s1 = []" and r1: "suffix (rest s1) x" by simp_all
  obtain p1 x1 where e1: "s1 = MState p1 x1 []" using c1 by (cases s1) simp
  from s2 obtain q r where x1: "x1 = q # r" and q: "is_css_punct q"
    and e2: "s2 = MState (Some q) r [(1, [q])]"
    unfolding e1 ms_punct_group by (auto split: list.splits if_splits)
  from s3 star_space_results[of s' no_flags True "Some q" r "[(1, [q])]"]
  have "caps s' = [(1, [q])]" and "suffix (rest s') r" unfolding e2 by simp_all
  moreover have "suffix r x" using r1 e1 x1 by (simp add: suffix_ConsD)
  ultimately show ?thesis using css_punct_not_ws[OF q] by (meson suffix_order.trans)
qed


lemma no_run_Cons_step:
  assumes x: "\<not> has_ws_run (c # cs)"
    and r: "\<not> has_ws_run r"
    and h: "r \<noteq> [] \<and> is_ws (hd r) \<longrightarrow> cs \<noteq> [] \<and> is_ws (hd cs)"
  shows "\<not> has_ws_run (c # r)"
  using assms by (auto simp: has_ws_run_Cons)

lemma replace_cssPunct_no_run:
  "\<not> has_ws_run x \<Longrightarrow>
     \<not> has_ws_run (replace_all no_flags cssPunct [TCap 1] p x) \<and>
     (replace_all no_flags cssPunct [TCap 1] p x \<noteq> [] \<and>
      is_ws (hd (replace_all no_flags cssPunct [TCap 1] p x)) \<longrightarrow> x \<noteq> [] \<and> is_ws (hd x))"
proof (induction "length x" arbitrary: x p rule: less_induct)
  case less
  let ?R = "replace_all no_flags cssPunct [TCap 1]"
  have copy: "\<not> has_ws_run (c # ?R (Some c) cs) \<and> \<not> has_ws_run (?R (Some c) cs)"
    if "x = c # cs" for c cs
  proof -
    from that less.prems have n: "\<not> has_ws_run cs" by (simp add: has_ws_run_Cons)
    from that have "length cs < length x" by simp
    from less.hyps[OF this n, of "Some c"] less.prems that
    show ?thesis using no_run_Cons_step[of c cs "?R (Some c) cs"] by blast
  qed
  show ?case
  proof (cases "ms no_flags cssPunct (MState p x [])")
    case Nil
    show ?thesis
    proof (cases x)
      case Nil
      with \<open>ms no_flags cssPunct (MState p x []) = []\<close> show ?thesis
        by (subst (1 2 3) replace_all.simps) simp
    next
      case (Cons c cs)
      with \<open>ms no_flags cssPunct (MState p x []) = []\<close> copy[OF Cons] show ?thesis
        by (subst (1 2 3) replace_all.simps) simp
    qed
  next
    case (Cons s ss)
    then have "s \<in> set (ms no_flags cssPunct (MState p x []))" by simp
    from cssPunct_results[OF this] obtain q where
      q: "\<not> is_ws q" and cq: "caps s = [(1, [q])]" and sf: "suffix (rest s) x" by blast
    show ?thesis
    proof (cases "length (rest s) < length x")
      case True
      from sf less.prems have "\<not> has_ws_run (rest s)" using has_ws_run_suffix by blast
      from less.hyps[OF True this, of "prev s"]
      have "\<not> has_ws_run (?R (prev s) (rest s))" by blast
      with q have "\<not> has_ws_run (q # ?R (prev s) (rest s))" by (simp add: has_ws_run_Cons)
      with True Cons cq q show ?thesis
        by (subst (1 2 3) replace_all.simps) simp
    next
      case False
      show ?thesis
      proof (cases x)
        case Nil
        with False Cons cq q show ?thesis
          by (subst (1 2 3) replace_all.simps) simp
      next
        case (Cons c cs)
        from copy[OF Cons] q have "\<not> has_ws_run (q # c # ?R (Some c) cs)"
          by (simp add: has_ws_run_Cons)
        with False \<open>ms no_flags cssPunct (MState p x []) = s # ss\<close> Cons cq q show ?thesis
          by (subst (1 2 3) replace_all.simps) simp
      qed
    qed
  qed
qed

lemma minifyCss_no_run: "\<not> has_ws_run (minifyCss text)"
proof -
  have "\<not> has_ws_run (replace_g no_flags wsRun [TLit (lit '' '')]
         (replace_g no_flags blockComment [] text))"
    by (simp add: replace_g_def lit_def replace_wsRun collapse_ws_no_run)
  from replace_cssPunct_no_run[OF this, of None] show ?thesis
    unfolding minifyCss_def by (simp add: replace_g_def trim_no_run)
qed

section \<open>Markup\<close>










section \<open>Comments in JavaScript and TypeScript\<close>

lemma find_close_shorter: "find_close r = Some r' \<Longrightarrow> length r' < length r"
  by (induction r rule: find_close.induct) (auto split: if_splits)

lemma block_end_shorter: "block_end x = Some r' \<Longrightarrow> length r' < length x"
  by (induction x rule: block_end.induct) (auto split: if_splits dest: find_close_shorter)

lemma skip_line_le: "length (skip_line x) \<le> length x"
  by (simp add: skip_line_def length_dropWhile_le)

lemma ms_Chr_cs:
  "\<not> ignoreCase fl \<Longrightarrow> ms fl (Chr a) (MState p x cs) =
     (case x of [] \<Rightarrow> [] | c # r \<Rightarrow> if c = a then [MState (Some c) r cs] else [])"
  by (simp add: step1_def split: list.split)

lemma ms_Str_cs:
  "\<not> ignoreCase fl \<Longrightarrow> ms fl (Str w) (MState p x cs) =
     (if take (length w) x = lit w
      then [MState (last_of p (lit w)) (drop (length w) x) cs] else [])"
proof (induction w arbitrary: p x)
  case Nil
  then show ?case by (simp add: Str_Nil lit_def last_of_def)
next
  case (Cons a w)
  show ?case
  proof (cases x)
    case Nil
    with Cons.prems show ?thesis by (simp add: Str_Cons ms_Chr_cs lit_def del: ms.simps(1))
  next
    case (Cons c r)
    with Cons.prems Cons.IH[OF Cons.prems, of "Some c" r] show ?thesis
      by (auto simp add: Str_Cons ms_Chr_cs lit_def last_of_Cons simp del: ms.simps(1))
  qed
qed

lemma flag_m_simps [simp]: "\<not> ignoreCase flag_m" "multiline flag_m"
  by (simp_all add: flag_m_def)

lemma no_flags_simps [simp]: "\<not> ignoreCase no_flags" "\<not> multiline no_flags"
  by (simp_all add: no_flags_def)

lemma ms_slash_star:
  "\<not> ignoreCase fl \<Longrightarrow> ms fl (Str ''/*'') (MState p x cs) =
     (case x of a # b # r \<Rightarrow> if a = 47 \<and> b = 42 then [MState (Some 42) r cs] else []
      | _ \<Rightarrow> [])"
  by (simp add: ms_Str_cs lit_def last_of_def split: list.split)

lemma ms_star_slash:
  "\<not> ignoreCase fl \<Longrightarrow> ms fl (Str ''*/'') (MState p x cs) =
     (case x of a # b # r \<Rightarrow> if a = 42 \<and> b = 47 then [MState (Some 47) r cs] else []
      | _ \<Rightarrow> [])"
  by (simp add: ms_Str_cs lit_def last_of_def split: list.split)

lemma ms_slash_slash:
  "\<not> ignoreCase fl \<Longrightarrow> ms fl (Str ''//'') (MState p x cs) =
     (case x of a # b # r \<Rightarrow> if a = 47 \<and> b = 47 then [MState (Some 47) r cs] else []
      | _ \<Rightarrow> [])"
  by (simp add: ms_Str_cs lit_def last_of_def split: list.split)

lemma ms_AnyChar [simp]:
  "ms fl AnyChar (MState p x cs) = (case x of [] \<Rightarrow> [] | c # r \<Rightarrow> [MState (Some c) r cs])"
  by (auto simp: AnyChar_def step1_def cls_has_def split: list.split)

lemma groups_AnyChar [simp]: "groups AnyChar = []"
  by (simp add: AnyChar_def)

lemma ms_lazy_any_Nil [simp]:
  "ms fl (Star False AnyChar) (MState p [] cs) = [MState p [] cs]"
  by (subst ms.simps(12)) simp

lemma ms_lazy_any_Cons:
  "ms fl (Star False AnyChar) (MState p (c # x) cs) =
     MState p (c # x) cs # ms fl (Star False AnyChar) (MState (Some c) x cs)"
  by (subst ms.simps(12)) simp

lemma lazy_close_None:
  assumes nc: "\<not> ignoreCase fl"
  shows "find_close r = None \<Longrightarrow>
     concat (map (ms fl (Str ''*/'')) (ms fl (Star False AnyChar) (MState p r cs))) = []"
proof (induction r arbitrary: p rule: find_close.induct)
  case (1 c d r)
  then show ?case
    by (auto simp: ms_lazy_any_Cons ms_star_slash[OF nc] split: if_splits)
qed (simp_all add: ms_lazy_any_Cons ms_star_slash[OF nc])

lemma lazy_close_Some:
  assumes nc: "\<not> ignoreCase fl"
  shows "find_close r = Some r' \<Longrightarrow>
     \<exists>ss. concat (map (ms fl (Str ''*/'')) (ms fl (Star False AnyChar) (MState p r cs)))
          = MState (Some 47) r' cs # ss"
proof (induction r arbitrary: p rule: find_close.induct)
  case (1 c d r)
  show ?case
  proof (cases "c = 42 \<and> d = 47")
    case True
    with 1 show ?thesis by (simp add: ms_lazy_any_Cons ms_star_slash[OF nc])
  next
    case False
    with 1(2) have "find_close (d # r) = Some r'" by simp
    from 1(1)[OF False this, of "Some c"] False show ?thesis
      by (subst ms_lazy_any_Cons) (auto simp: ms_star_slash[OF nc])
  qed
qed simp_all

lemma ms_block_None:
  assumes nc: "\<not> ignoreCase fl"
  shows "block_end x = None \<Longrightarrow> ms fl blockComment (MState p x cs) = []"
proof (induction x rule: block_end.induct)
  case (1 a b r)
  then show ?case
    using lazy_close_None[OF nc, of r "Some 42" cs]
    by (auto simp: blockComment_def ms_slash_star[OF nc] split: if_splits)
qed (simp_all add: blockComment_def ms_slash_star[OF nc])

lemma ms_block_Some:
  assumes nc: "\<not> ignoreCase fl"
  shows "block_end x = Some r' \<Longrightarrow>
     \<exists>ss. ms fl blockComment (MState p x cs) = MState (Some 47) r' cs # ss"
proof (induction x rule: block_end.induct)
  case (1 a b r)
  then have "a = 47" "b = 42" "find_close r = Some r'" by (simp_all split: if_splits)
  with lazy_close_Some[OF nc, of r r' "Some 42" cs] show ?case
    by (auto simp: blockComment_def ms_slash_star[OF nc])
qed simp_all

lemma ms_Dot [simp]:
  "ms fl Dot (MState p x cs) =
     (case x of [] \<Rightarrow> [] | c # r \<Rightarrow> if is_lt c then [] else [MState (Some c) r cs])"
  by (simp add: step1_def split: list.split)

lemma ms_star_dot_Nil [simp]:
  "ms fl (Star True Dot) (MState p [] cs) = [MState p [] cs]"
  by (subst ms.simps(12)) simp

lemma ms_star_dot_Cons:
  "ms fl (Star True Dot) (MState p (c # x) cs) =
     (if is_lt c then [MState p (c # x) cs]
      else ms fl (Star True Dot) (MState (Some c) x cs) @ [MState p (c # x) cs])"
  by (subst ms.simps(12)) (simp add: step1_def)

lemma concat_map_Eol: "concat (map (ms fl Eol) L) = filter (at_eol fl) L"
  by (induction L) simp_all

lemma dot_star_eol_hd:
  "\<exists>q ss. filter (at_eol flag_m) (ms flag_m (Star True Dot) (MState p r cs))
     = MState q (skip_line r) cs # ss"
proof (induction r arbitrary: p)
  case Nil
  show ?case by (simp add: at_eol_def skip_line_def)
next
  case (Cons c r)
  show ?case
  proof (cases "is_lt c")
    case True
    then show ?thesis
      by (simp add: ms_star_dot_Cons at_eol_def flag_m_def skip_line_def)
  next
    case False
    from Cons[of "Some c"] obtain q ss where
      "filter (at_eol flag_m) (ms flag_m (Star True Dot) (MState (Some c) r cs))
         = MState q (skip_line r) cs # ss" by blast
    with False show ?thesis
      by (simp add: ms_star_dot_Cons skip_line_def)
  qed
qed

lemma ms_lineTail_no:
  "\<not> starts_line_comment y \<Longrightarrow> ms flag_m jsLineTail (MState q y cs) = []"
  by (induction y rule: starts_line_comment.induct)
     (auto simp: jsLineTail_def ms_slash_slash)

lemma ms_lineTail_hd:
  "\<exists>q' ss. ms flag_m jsLineTail (MState q (47 # 47 # r) cs) = MState q' (skip_line r) cs # ss"
  using dot_star_eol_hd[of "Some 47" r cs]
  by (simp add: jsLineTail_def ms_slash_slash concat_map_Eol del: ms.simps(6))

lemma jsLineComment_eq:
  "jsLineComment = Seq (Group 1 (Alt (NCls [CChr 92, cc CHR '':'']) Bol)) jsLineTail"
  by (simp add: jsLineComment_def jsLinePrefix_def)

lemma ms_prefix_group:
  "ms flag_m (Group 1 (Alt (NCls [CChr 92, cc CHR '':'']) Bol)) (MState p x []) =
     (case x of [] \<Rightarrow> []
      | c # r \<Rightarrow> if js_blocked c then [] else [MState (Some c) r [(1, [c])]]) @
     (if (case p of None \<Rightarrow> True | Some d \<Rightarrow> is_lt d) then [MState p x [(1, [])]] else [])"
  by (auto simp: step1_def cls_has_def flag_m_def cc_def js_blocked_def set_cap_def
      consumed_def at_bol_def split: list.split option.split)


lemma starts_line_comment_iff: "starts_line_comment y \<longleftrightarrow> (\<exists>r. y = 47 # 47 # r)"
  by (induction y rule: starts_line_comment.induct) auto

lemma line_prefix_case:
  assumes "\<not> js_blocked c"
  shows "\<exists>q ss. ms flag_m jsLineComment (MState p (c # 47 # 47 # r) [])
           = MState q (skip_line r) [(1, [c])] # ss"
proof -
  from ms_lineTail_hd[of "Some c" r "[(1, [c])]"] obtain q ss where
    "ms flag_m jsLineTail (MState (Some c) (47 # 47 # r) [(1, [c])])
       = MState q (skip_line r) [(1, [c])] # ss" by blast
  with assms show ?thesis
    unfolding jsLineComment_eq ms.simps(9) ms_prefix_group by simp
qed

lemma line_start_case:
  assumes "\<not> prefix_case (47 # 47 # r)" and "at_line_start p"
  shows "\<exists>q ss. ms flag_m jsLineComment (MState p (47 # 47 # r) [])
           = MState q (skip_line r) [(1, [])] # ss"
proof -
  from assms(1) have n: "\<not> starts_line_comment (47 # r)" by (simp add: js_blocked_def)
  from ms_lineTail_hd[of p r "[(1, [])]"] obtain q ss where
    "ms flag_m jsLineTail (MState p (47 # 47 # r) [(1, [])])
       = MState q (skip_line r) [(1, [])] # ss" by blast
  with assms(2) ms_lineTail_no[OF n] show ?thesis
    unfolding jsLineComment_eq ms.simps(9) ms_prefix_group
    by (simp add: at_line_start_def js_blocked_def)
qed

lemma line_no_case:
  assumes "\<not> prefix_case x" and "\<not> (starts_line_comment x \<and> at_line_start p)"
  shows "ms flag_m jsLineComment (MState p x []) = []"
proof (cases x)
  case Nil
  then show ?thesis
    unfolding jsLineComment_eq ms.simps(9) ms_prefix_group
    by (simp add: ms_lineTail_no)
next
  case (Cons c r)
  with assms(1) have a: "js_blocked c \<or> \<not> starts_line_comment r" by simp
  from assms(2) have b: "at_line_start p \<Longrightarrow> \<not> starts_line_comment x" by blast
  from a b Cons show ?thesis
    unfolding jsLineComment_eq ms.simps(9) ms_prefix_group
    by (auto simp add: ms_lineTail_no at_line_start_def)
qed

lemma replace_step_match:
  "ms fl r (MState p x []) = s # ss \<Longrightarrow> length (rest s) < length x \<Longrightarrow>
     replace_all fl r t p x = expand t (caps s) @ replace_all fl r t (prev s) (rest s)"
  by (subst replace_all.simps) simp

lemma replace_step_none:
  "ms fl r (MState p x []) = [] \<Longrightarrow>
     replace_all fl r t p x =
       (case x of [] \<Rightarrow> [] | c # cs \<Rightarrow> c # replace_all fl r t (Some c) cs)"
  by (subst replace_all.simps) simp

lemma has_triple_slash_Cons:
  "has_triple_slash (a # x) \<longleftrightarrow> (a = 47 \<and> starts_line_comment x) \<or> has_triple_slash x"
proof (cases x)
  case Nil
  then show ?thesis by simp
next
  case (Cons b y)
  then show ?thesis by (cases y) auto
qed

lemma has_triple_slash_append: "has_triple_slash x \<Longrightarrow> has_triple_slash (u @ x)"
  by (induction u) (simp_all add: has_triple_slash_Cons)

lemma has_triple_slash_mid:
  "starts_line_comment x \<Longrightarrow> has_triple_slash (u @ 47 # x)"
  by (induction u) (simp_all add: has_triple_slash_Cons)

lemma find_close_parts: "find_close r = Some r' \<Longrightarrow> \<exists>u. r = u @ 47 # r'"
proof (induction r rule: find_close.induct)
  case (1 c d r)
  show ?case
  proof (cases "c = 42 \<and> d = 47")
    case True
    with 1(2) have "c # d # r = [c] @ 47 # r'" by simp
    then show ?thesis by blast
  next
    case False
    with 1 obtain u where "d # r = u @ 47 # r'" by auto
    then have "c # d # r = (c # u) @ 47 # r'" by simp
    then show ?thesis by blast
  qed
qed simp_all

lemma block_end_parts: "block_end x = Some r' \<Longrightarrow> \<exists>u. x = u @ 47 # r'"
proof (induction x rule: block_end.induct)
  case (1 a b r)
  then have "find_close r = Some r'" by (simp split: if_splits)
  from find_close_parts[OF this] obtain u where "r = u @ 47 # r'" by blast
  then have "a # b # r = (a # b # u) @ 47 # r'" by simp
  then show ?case by blast
qed simp_all

lemma skip_line_parts: "\<exists>u. x = u @ skip_line x"
  unfolding skip_line_def by (metis takeWhile_dropWhile_id)

lemma skip_line_start: "\<not> starts_line_comment (skip_line x)"
proof (cases "skip_line x")
  case Nil
  then show ?thesis by simp
next
  case (Cons c r)
  then have "dropWhile (\<lambda>d. \<not> is_lt d) x \<noteq> []" by (simp add: skip_line_def)
  from hd_dropWhile[OF this] Cons have "is_lt c" by (simp add: skip_line_def)
  then have "c \<noteq> 47" by (auto simp: is_lt_def)
  with Cons show ?thesis by (simp add: starts_line_comment_iff)
qed

lemma strip_comments_prev:
  "\<not> starts_line_comment x \<Longrightarrow> strip_comments b p x = strip_comments b p' x"
  by (cases x) simp_all


lemma ms_jsComment_split:
  "ms flag_m jsComment (MState p x []) =
     ms flag_m blockComment (MState p x []) @ ms flag_m jsLineComment (MState p x [])"
  by (simp add: jsComment_def)

lemma is_lt_not_blocked: "is_lt d \<Longrightarrow> \<not> js_blocked d"
  by (auto simp: is_lt_def js_blocked_def)

lemma strip_refines:
  "\<not> has_triple_slash x \<Longrightarrow>
   (starts_line_comment x \<longrightarrow> at_line_start p \<or> (\<exists>d. p = Some d \<and> js_blocked d)) \<Longrightarrow>
     replace_all flag_m jsComment [TCap 1] p x = strip_comments js_blocked p x"
proof (induction "length x" arbitrary: x p rule: less_induct)
  case less
  let ?R = "replace_all flag_m jsComment [TCap 1]"
  let ?S = "strip_comments js_blocked"
  note H = less.prems(1) and I = less.prems(2)
  have after_line: "?R q (skip_line r) = ?S (Some 47) (skip_line r)"
    if "length (skip_line r) < length x" and "\<exists>u. x = u @ r" for q r
  proof -
    from that(2) obtain u where "x = u @ r" by blast
    moreover obtain v where "r = v @ skip_line r" using skip_line_parts by blast
    ultimately have "x = (u @ v) @ skip_line r" by simp
    with H have h: "\<not> has_triple_slash (skip_line r)"
      using has_triple_slash_append by metis
    from less.hyps[OF that(1) h, of q] skip_line_start[of r]
    have "?R q (skip_line r) = ?S q (skip_line r)" by simp
    also have "\<dots> = ?S (Some 47) (skip_line r)"
      by (rule strip_comments_prev) (rule skip_line_start)
    finally show ?thesis .
  qed
  show ?case
  proof (cases "block_end x")
    case (Some r')
    from ms_block_Some[OF flag_m_simps(1) Some, of p "[]"] obtain ss where
      m: "ms flag_m jsComment (MState p x []) = MState (Some 47) r' [] # ss"
      by (auto simp: ms_jsComment_split)
    have l: "length r' < length x" by (rule block_end_shorter[OF Some])
    from block_end_parts[OF Some] obtain u where u: "x = u @ 47 # r'" by blast
    have h: "\<not> has_triple_slash r'"
    proof
      assume "has_triple_slash r'"
      then have "has_triple_slash ((u @ [47]) @ r')" by (rule has_triple_slash_append)
      with H u show False by simp
    qed
    have n: "\<not> starts_line_comment r'"
      using has_triple_slash_mid[of r' u] H u by auto
    from less.hyps[OF l h, of "Some 47"] n
    have ih: "?R (Some 47) r' = ?S (Some 47) r'" by simp
    from Some have "x \<noteq> []" by auto
    then obtain c cs where x: "x = c # cs" by (cases x) auto
    from replace_step_match[OF m] l ih have "?R p x = ?S (Some 47) r'" by simp
    also from Some x have "\<dots> = ?S p x" by simp
    finally show ?thesis .
  next
    case None
    from ms_block_None[OF flag_m_simps(1) None, of p "[]"]
    have m0: "ms flag_m jsComment (MState p x []) = ms flag_m jsLineComment (MState p x [])"
      by (simp add: ms_jsComment_split)
    show ?thesis
    proof (cases "prefix_case x")
      case True
      then obtain c r where x: "x = c # 47 # 47 # r" and nb: "\<not> js_blocked c"
        by (cases x) (auto simp: starts_line_comment_iff)
      from H x have c47: "c \<noteq> 47" by auto
      from line_prefix_case[OF nb, of p r] obtain q ss where
        "ms flag_m jsLineComment (MState p (c # 47 # 47 # r) [])
           = MState q (skip_line r) [(1, [c])] # ss" by blast
      with m0 have
        m: "ms flag_m jsComment (MState p x []) = MState q (skip_line r) [(1, [c])] # ss"
        unfolding x by (simp only:)
      have l: "length (skip_line r) < length x"
        using skip_line_le[of r] x by simp
      have "\<exists>u. x = u @ r" using x by (intro exI[of _ "[c, 47, 47]"]) simp
      from after_line[OF l this, of q] replace_step_match[OF m] l
      have "?R p x = c # ?S (Some 47) (skip_line r)" by simp
      also from x c47 nb have "\<dots> = ?S p x" by simp
      finally show ?thesis .
    next
      case False
      show ?thesis
      proof (cases "starts_line_comment x \<and> at_line_start p")
        case True
        then obtain r where x: "x = 47 # 47 # r" by (auto simp: starts_line_comment_iff)
        from False x have np: "\<not> prefix_case (47 # 47 # r)" by simp
        from True have ls: "at_line_start p" by simp
        from line_start_case[OF np ls] obtain q ss where
          "ms flag_m jsLineComment (MState p (47 # 47 # r) [])
             = MState q (skip_line r) [(1, [])] # ss" by blast
        with m0 have
          m: "ms flag_m jsComment (MState p x []) = MState q (skip_line r) [(1, [])] # ss"
          unfolding x by (simp only:)
        have l: "length (skip_line r) < length x"
          using skip_line_le[of r] x by simp
        have "\<exists>u. x = u @ r" using x by (intro exI[of _ "[47, 47]"]) simp
        from after_line[OF l this, of q] replace_step_match[OF m] l
        have "?R p x = ?S (Some 47) (skip_line r)" by simp
        also from x ls have "\<dots> = ?S p x"
          by (auto simp: at_line_start_def is_lt_not_blocked split: option.splits)
        finally show ?thesis .
      next
        case nl: False
        from line_no_case[OF False nl]
        have m: "ms flag_m jsComment (MState p x []) = []" unfolding m0 .
        show ?thesis
        proof (cases x)
          case Nil
          with replace_step_none[OF m] show ?thesis by simp
        next
          case (Cons c cs)
          from H Cons have h: "\<not> has_triple_slash cs" by (simp add: has_triple_slash_Cons)
          from False Cons have i: "starts_line_comment cs \<longrightarrow> js_blocked c" by auto
          from less.hyps[of cs "Some c"] Cons h i
          have ih: "?R (Some c) cs = ?S (Some c) cs" by simp
          have g: "\<not> (starts_line_comment x \<and> (case p of None \<Rightarrow> True | Some d \<Rightarrow> \<not> js_blocked d))"
            using nl I by (auto simp: at_line_start_def split: option.splits)
          from replace_step_none[OF m] Cons ih have "?R p x = c # ?S (Some c) cs" by simp
          also from None Cons g have "\<dots> = ?S p x" by auto
          finally show ?thesis .
        qed
      qed
    qed
  qed
qed

section \<open>Texts that are one comment\<close>

lemma minifyJs_refines:
  assumes h: "\<not> has_triple_slash text"
  shows "minifyJs text = trim (collapse_ws (strip_comments js_blocked None text))"
proof -
  from strip_refines[OF h, of None]
  have "replace_g flag_m jsComment [TCap 1] text = strip_comments js_blocked None text"
    by (simp add: replace_g_def at_line_start_def)
  then show ?thesis
    by (simp add: minifyJs_def replace_g_def lit_def replace_wsRun)
qed

lemma ms_cssPunct_Nil: "ms no_flags cssPunct (MState p [] []) = []"
  by (simp add: cssPunct_def step1_def)

lemma minifyCss_only_comment:
  assumes "find_close r = Some []"
  shows "minifyCss (47 # 42 # r) = []"
proof -
  from assms have b: "block_end (47 # 42 # r) = Some []" by simp
  from ms_block_Some[OF no_flags_simps(1) b, of None "[]"] obtain ss where
    m: "ms no_flags blockComment (MState None (47 # 42 # r) []) = MState (Some 47) [] [] # ss"
    by blast
  have e: "ms no_flags blockComment (MState (Some 47) [] []) = []"
    by (rule ms_block_None[OF no_flags_simps(1)]) simp
  from replace_step_match[OF m, of "[]"] replace_step_none[OF e, of "[]"]
  have "replace_g no_flags blockComment [] (47 # 42 # r) = []"
    by (simp add: replace_g_def)
  then show ?thesis
    by (simp add: minifyCss_def replace_g_def lit_def replace_wsRun
        replace_step_none[OF ms_cssPunct_Nil] trim_def)
qed

lemma minifyJs_only_line_comment:
  assumes h: "\<not> has_triple_slash (47 # 47 # r)" and l: "\<forall>c\<in>set r. \<not> is_lt c"
  shows "minifyJs (47 # 47 # r) = []"
proof -
  from l have "skip_line r = []" by (simp add: skip_line_def)
  then have "strip_comments js_blocked None (47 # 47 # r) = []" by simp
  with minifyJs_refines[OF h] show ?thesis by (simp add: trim_def)
qed

lemma trim_Cons_nonblank: "\<not> is_ws c \<Longrightarrow> trim (c # r) \<noteq> []"
  by (simp add: trim_Nil_iff)

section \<open>Padding with white space\<close>

text \<open>
  White space added in front of a text and behind it is removed by \<open>trim\<close>, a text is its
  trimmed form between two blank texts, and the trimmed form neither starts nor ends with
  white space.
\<close>

lemma trim_pad:
  assumes a: "list_all is_ws a" and b: "list_all is_ws b"
  shows "trim (a @ t @ b) = trim t"
proof -
  from a have d1: "dropWhile is_ws (a @ t @ b) = dropWhile is_ws (t @ b)"
    by (simp add: list_all_iff dropWhile_append2)
  show ?thesis
  proof (cases "\<forall>c\<in>set t. is_ws c")
    case True
    with b have "\<forall>c\<in>set (t @ b). is_ws c" by (auto simp: list_all_iff)
    then have e1: "dropWhile is_ws (t @ b) = []" by (simp only: dropWhile_eq_Nil_conv)
    have "trim (a @ t @ b) = []" unfolding trim_def d1 e1 by simp
    moreover from True have "trim t = []" by (simp add: trim_Nil_iff)
    ultimately show ?thesis by simp
  next
    case False
    then obtain x where x: "x \<in> set t" "\<not> is_ws x" by blast
    then have d2: "dropWhile is_ws (t @ b) = dropWhile is_ws t @ b"
      by (simp add: dropWhile_append1)
    from b have "dropWhile is_ws (rev b @ rev (dropWhile is_ws t)) =
        dropWhile is_ws (rev (dropWhile is_ws t))"
      by (intro dropWhile_append2) (simp add: list_all_iff)
    with d1 d2 show ?thesis by (simp add: trim_def)
  qed
qed

lemma trim_decomp: "\<exists>a b. t = a @ trim t @ b \<and> list_all is_ws a \<and> list_all is_ws b"
proof -
  from trim_split[of t] obtain w where
    e: "dropWhile is_ws t = trim t @ w" and w: "\<forall>c\<in>set w. is_ws c" by blast
  have "t = takeWhile is_ws t @ dropWhile is_ws t" by simp
  with e have "t = takeWhile is_ws t @ trim t @ w" by simp
  moreover have "list_all is_ws (takeWhile is_ws t)"
    by (auto simp: list_all_iff dest: set_takeWhileD)
  moreover from w have "list_all is_ws w" by (simp add: list_all_iff)
  ultimately show ?thesis by blast
qed

lemma trim_first: "trim t \<noteq> [] \<Longrightarrow> \<not> is_ws (hd (trim t))"
proof -
  assume n: "trim t \<noteq> []"
  then have d: "dropWhile is_ws t \<noteq> []"
    by (cases "dropWhile is_ws t = []") (simp_all add: trim_def)
  then obtain c r where cr: "dropWhile is_ws t = c # r" by (cases "dropWhile is_ws t") auto
  from trim_hd[OF cr] obtain r' where "trim t = c # r'" by blast
  moreover from cr have "\<not> is_ws c" using hd_dropWhile[of is_ws t] d by auto
  ultimately show ?thesis by simp
qed

section \<open>The claims\<close>

text \<open>
  Claim C1. For every language and every text, minification fails with \<open>EmptyResult\<close>
  exactly when the trimmed text is not empty and the transform of \<open>minifyCode\<close> computes
  the empty string: that string is never returned for a text that is not blank. This
  happens for a CSS text that is one block comment (it starts with \<^verbatim>\<open>/*\<close> and the
  first \<^verbatim>\<open>*/\<close> after that ends it) and for a JavaScript or TypeScript text that is one
  line starting with \<^verbatim>\<open>//\<close> (without three slashes in a row).
\<close>

theorem empty_result_is_error:
  "(handleMinify compact text lang = Inl EmptyResult \<longleftrightarrow>
      trim text \<noteq> [] \<and> minifyCode compact text lang = Inr []) \<and>
   (find_close body = Some [] \<longrightarrow>
      handleMinify compact (47 # 42 # body) CSS = Inl EmptyResult) \<and>
   (\<not> has_triple_slash (47 # 47 # line) \<and> (\<forall>c\<in>set line. \<not> is_lt c) \<longrightarrow>
      handleMinify compact (47 # 47 # line) JAVASCRIPT = Inl EmptyResult \<and>
      handleMinify compact (47 # 47 # line) TYPESCRIPT = Inl EmptyResult) \<and>
   handleMinify compact (lit ''/* only a comment */'') CSS = Inl EmptyResult \<and>
   handleMinify compact (lit ''// just a comment'') JAVASCRIPT = Inl EmptyResult \<and>
   handleMinify compact (lit ''// just a comment'') TYPESCRIPT = Inl EmptyResult"
proof -
  have g: "handleMinify compact text lang = Inl EmptyResult \<longleftrightarrow>
      trim text \<noteq> [] \<and> minifyCode compact text lang = Inr []"
    by (cases lang) (simp_all add: handleMinify_def minifyCode_def)
  have n: "trim (47 # x) \<noteq> []" for x
    by (rule trim_Cons_nonblank) (simp add: is_ws_def)
  have c: "handleMinify compact (47 # 42 # body) CSS = Inl EmptyResult"
    if "find_close body = Some []"
    using minifyCss_only_comment[OF that] n[of "42 # body"]
    by (simp add: handleMinify_def minifyCode_def)
  have j: "handleMinify compact (47 # 47 # line) JAVASCRIPT = Inl EmptyResult \<and>
      handleMinify compact (47 # 47 # line) TYPESCRIPT = Inl EmptyResult"
    if "\<not> has_triple_slash (47 # 47 # line) \<and> (\<forall>c\<in>set line. \<not> is_lt c)"
    using minifyJs_only_line_comment[of line] that n[of "47 # line"]
    by (simp add: handleMinify_def minifyCode_def)
  have e1: "handleMinify compact (lit ''/* only a comment */'') CSS = Inl EmptyResult"
    by code_simp
  have e2: "handleMinify compact (lit ''// just a comment'') JAVASCRIPT = Inl EmptyResult"
    by code_simp
  have e3: "handleMinify compact (lit ''// just a comment'') TYPESCRIPT = Inl EmptyResult"
    by code_simp
  from g c j e1 e2 e3 show ?thesis by blast
qed

theorem empty_result_is_error_witness:
  "trim (lit ''/* c */'') \<noteq> [] \<and>
   minifyCode (\<lambda>s. s) (lit ''/* c */'') CSS = Inr [] \<and>
   handleMinify (\<lambda>s. s) (lit ''/* c */'') CSS = Inl EmptyResult \<and>
   find_close (lit '' c */'') = Some [] \<and>
   handleMinify (\<lambda>s. s) (47 # 42 # lit '' c */'') CSS = Inl EmptyResult \<and>
   \<not> has_triple_slash (47 # 47 # lit '' note'') \<and> list_all (\<lambda>c. \<not> is_lt c) (lit '' note'') \<and>
   handleMinify (\<lambda>s. s) (47 # 47 # lit '' note'') TYPESCRIPT = Inl EmptyResult"
proof -
  have a: "trim (lit ''/* c */'') \<noteq> []" by code_simp
  have b: "minifyCode (\<lambda>s. s) (lit ''/* c */'') CSS = Inr []" by code_simp
  have c: "find_close (lit '' c */'') = Some []" by code_simp
  have d: "\<not> has_triple_slash (47 # 47 # lit '' note'')" by code_simp
  have e: "list_all (\<lambda>c. \<not> is_lt c) (lit '' note'')" by code_simp
  from e have e': "\<forall>c\<in>set (lit '' note''). \<not> is_lt c" by (simp add: list_all_iff)
  from a b c d e e'
    empty_result_is_error[of "\<lambda>s. s" "lit ''/* c */''" CSS "lit '' c */''" "lit '' note''"]
  show ?thesis by blast
qed

text \<open>
  Claim C2. The claim says that \<open>detectLanguage\<close> returns \<open>TYPESCRIPT\<close> for
  \<^verbatim>\<open>interface Foo { x: number }\<close>. The code returns \<open>CSS\<close>: the text has the shape of
  the second CSS pattern (text without braces, then a block in braces up to the end of a
  line), the list of JavaScript-like keywords that guards the CSS test has no TypeScript
  keyword, and the CSS test comes before the TypeScript test. The TypeScript test of the
  code itself accepts the text, by \<^verbatim>\<open>interface\<close> and by \<^verbatim>\<open>: number\<close>, and the same
  declaration behind \<^verbatim>\<open>export\<close>, a keyword of the guard, is detected as
  \<open>TYPESCRIPT\<close>.
\<close>

theorem interface_detected_as_css:
  "detectLanguage (lit ''interface Foo { x: number }'') = CSS \<and>
   detectLanguage (lit ''interface Foo { x: number }'') \<noteq> TYPESCRIPT \<and>
   re_test flag_m cssBlockPattern (lit ''interface Foo { x: number }'') \<and>
   \<not> re_test no_flags isJsLikePattern (lit ''interface Foo { x: number }'') \<and>
   re_test no_flags tsKeywords (lit ''interface Foo { x: number }'') \<and>
   re_test no_flags tsTypeAnnotation (lit ''interface Foo { x: number }'') \<and>
   detectLanguage (lit ''export interface Foo { x: number }'') = TYPESCRIPT"
  by code_simp

text \<open>
  Claim C3, as stated: \<open>detectLanguage\<close> returns \<open>JSON\<close> for every valid JSON document.
  The document \<^verbatim>\<open>42\<close> is valid and is not detected as JSON.
\<close>

theorem json_number_not_detected:
  "json_valid (lit ''42'') \<and> detectLanguage (lit ''42'') \<noteq> JSON"
  by code_simp

text \<open>
  Claim C3, amended. For every valid JSON document whose value is an object or an array,
  that is, whose first character after the leading white space is \<^verbatim>\<open>{\<close> or
  \<^verbatim>\<open>[\<close>, \<open>detectLanguage\<close> returns \<open>JSON\<close>; more generally it does whenever the
  trimmed text is a valid JSON document that starts with \<^verbatim>\<open>{\<close> and ends with
  \<^verbatim>\<open>}\<close>, or starts with \<^verbatim>\<open>[\<close> and ends with \<^verbatim>\<open>]\<close>. In particular it
  does for \<^verbatim>\<open>{"q": "SELECT * FROM t"}\<close>, which the SQL test would accept, because
  the JSON test comes first.
\<close>

theorem json_object_or_array_detected:
  "(json_valid t \<and> (\<exists>r. dropWhile is_ws t = 123 # r \<or> dropWhile is_ws t = 91 # r) \<longrightarrow>
      detectLanguage t = JSON) \<and>
   (json_valid (trim t) \<and>
      ((startsWith (trim t) (lit ''{'') \<and> endsWith (trim t) (lit ''}'')) \<or>
       (startsWith (trim t) (lit ''['') \<and> endsWith (trim t) (lit '']''))) \<longrightarrow>
      detectLanguage t = JSON) \<and>
   json_valid sqlInJson \<and> isSql sqlInJson \<and> detectLanguage sqlInJson = JSON"
proof -
  have g: "detectLanguage t = JSON"
    if "json_valid (trim t) \<and>
      ((startsWith (trim t) (lit ''{'') \<and> endsWith (trim t) (lit ''}'')) \<or>
       (startsWith (trim t) (lit ''['') \<and> endsWith (trim t) (lit '']'')))"
    using that by (simp add: detectLanguage_def detectTrimmed_def)
  have h: "detectLanguage t = JSON"
    if v: "json_valid t" and d: "\<exists>r. dropWhile is_ws t = 123 # r \<or> dropWhile is_ws t = 91 # r"
  proof -
    from d obtain c r where "dropWhile is_ws t = c # r" and "c = 123 \<or> c = 91" by blast
    from valid_object_or_array_brackets[OF v this] show ?thesis by (rule g)
  qed
  have c: "json_valid sqlInJson \<and> isSql sqlInJson \<and> detectLanguage sqlInJson = JSON"
    by code_simp
  from g h c show ?thesis by blast
qed

theorem json_object_or_array_detected_witness:
  "json_valid (lit '' [1, 2] '') \<and> dropWhile is_ws (lit '' [1, 2] '') = 91 # lit ''1, 2] '' \<and>
   json_valid (trim (lit '' [1, 2] '')) \<and>
   startsWith (trim (lit '' [1, 2] '')) (lit ''['') \<and>
   endsWith (trim (lit '' [1, 2] '')) (lit '']'') \<and>
   detectLanguage (lit '' [1, 2] '') = JSON"
proof -
  have v: "json_valid (lit '' [1, 2] '')" by code_simp
  have d: "dropWhile is_ws (lit '' [1, 2] '') = 91 # lit ''1, 2] ''" by code_simp
  have a: "json_valid (trim (lit '' [1, 2] ''))" by code_simp
  have b: "startsWith (trim (lit '' [1, 2] '')) (lit ''['')" by code_simp
  have c: "endsWith (trim (lit '' [1, 2] '')) (lit '']'')" by code_simp
  from v d a b c json_object_or_array_detected[of "lit '' [1, 2] ''"]
  show ?thesis by blast
qed

text \<open>
  Claim C5. Minification fails with \<open>InvalidSyntax\<close> exactly when the language is JSON,
  the trimmed text is not empty and the text is not valid JSON; no other language raises it.
  It does for \<^verbatim>\<open>{not valid json\<close>.
\<close>

theorem invalid_syntax_iff:
  "(handleMinify compact text lang = Inl InvalidSyntax \<longleftrightarrow>
      lang = JSON \<and> trim text \<noteq> [] \<and> \<not> json_valid text) \<and>
   (minifyCode compact text lang = Inl InvalidSyntax \<longleftrightarrow>
      lang = JSON \<and> trim text \<noteq> [] \<and> \<not> json_valid text) \<and>
   handleMinify compact (lit ''{not valid json'') JSON = Inl InvalidSyntax"
proof -
  have a: "handleMinify compact text lang = Inl InvalidSyntax \<longleftrightarrow>
      lang = JSON \<and> trim text \<noteq> [] \<and> \<not> json_valid text"
    by (cases lang) (simp_all add: handleMinify_def minifyCode_def)
  have b: "minifyCode compact text lang = Inl InvalidSyntax \<longleftrightarrow>
      lang = JSON \<and> trim text \<noteq> [] \<and> \<not> json_valid text"
    by (cases lang) (simp_all add: minifyCode_def)
  have c: "handleMinify compact (lit ''{not valid json'') JSON = Inl InvalidSyntax"
    by code_simp
  from a b c show ?thesis by blast
qed

theorem invalid_syntax_iff_witness:
  "trim (lit ''[1,'') \<noteq> [] \<and> \<not> json_valid (lit ''[1,'') \<and>
   handleMinify (\<lambda>s. s) (lit ''[1,'') JSON = Inl InvalidSyntax \<and>
   handleMinify (\<lambda>s. s) (lit ''[1,'') SQL \<noteq> Inl InvalidSyntax"
proof -
  have a: "trim (lit ''[1,'') \<noteq> []" by code_simp
  have b: "\<not> json_valid (lit ''[1,'')" by code_simp
  from a b invalid_syntax_iff[of "\<lambda>s. s" "lit ''[1,''" JSON]
    invalid_syntax_iff[of "\<lambda>s. s" "lit ''[1,''" SQL]
  show ?thesis by simp
qed

text \<open>
  Claim C6. For every language and every text whose trimmed form is empty, minification
  succeeds and returns the empty string. This includes JSON, although such a text is not
  valid JSON.
\<close>

theorem blank_minifies_to_empty:
  "trim text = [] \<Longrightarrow>
     handleMinify compact text lang = Inr [] \<and> minifyCode compact text lang = Inr [] \<and>
     \<not> json_valid text"
  by (simp add: handleMinify_def minifyCode_def blank_not_json)

theorem blank_minifies_to_empty_witness:
  "trim ([32, 9, 10] :: jstring) = [] \<and> handleMinify (\<lambda>s. s) [32, 9, 10] JSON = Inr [] \<and>
   minifyCode (\<lambda>s. s) [32, 9, 10] JSON = Inr [] \<and> \<not> json_valid [32, 9, 10]"
proof -
  have h: "trim ([32, 9, 10] :: jstring) = []" by (simp add: trim_def is_ws_def)
  show ?thesis using h blank_minifies_to_empty[OF h, of "\<lambda>s. s" JSON] by simp
qed






text \<open>
  Claim C9. For every text, the result of minifying it as CSS has no run of two or more
  white-space characters; for \<^verbatim>\<open>a   b\n\n c\<close> the result is \<^verbatim>\<open>a b c\<close>.
\<close>

theorem css_no_whitespace_run:
  "(\<forall>res. handleMinify compact text CSS = Inr res \<or> minifyCode compact text CSS = Inr res
       \<longrightarrow> \<not> has_ws_run res) \<and>
   handleMinify compact (lit ''a   b'' @ [10, 10] @ lit '' c'') CSS = Inr (lit ''a b c'')"
proof -
  have m: "\<And>res. minifyCode compact text CSS = Inr res \<Longrightarrow> \<not> has_ws_run res"
    using minifyCss_no_run[of "text"] by (auto simp: minifyCode_def split: if_splits)
  have h: "\<And>res. handleMinify compact text CSS = Inr res \<Longrightarrow> \<not> has_ws_run res"
    using m by (auto simp: handleMinify_def split: sum.splits if_splits)
  have e: "handleMinify compact (lit ''a   b'' @ [10, 10] @ lit '' c'') CSS = Inr (lit ''a b c'')"
    by code_simp
  from m h e show ?thesis by blast
qed

theorem css_no_whitespace_run_witness:
  "handleMinify (\<lambda>s. s) (lit ''a {  color :  red ; }'') CSS = Inr (lit ''a{color:red;}'') \<and>
   \<not> has_ws_run (lit ''a{color:red;}'')"
proof -
  have a: "handleMinify (\<lambda>s. s) (lit ''a {  color :  red ; }'') CSS = Inr (lit ''a{color:red;}'')"
    by code_simp
  from a css_no_whitespace_run[of "\<lambda>s. s" "lit ''a {  color :  red ; }''"]
  show ?thesis by blast
qed

text \<open>
  Claim C10. \<open>detectLanguage\<close> gives the same answer for a text and for the text with its
  leading and trailing white space removed, and the same answer when white space is added
  in front of the text and behind it: every test of the cascade reads the trimmed text
  only. Here \<open>trim t\<close> is the text \<open>t\<close> without its leading and trailing white space:
  \<open>t\<close> is \<open>trim t\<close> between two blank texts, and \<open>trim t\<close> neither starts nor ends with
  white space.
\<close>

theorem detect_trim_invariant:
  "detectLanguage t = detectLanguage (trim t) \<and>
   detectLanguage t = detectTrimmed (trim t) \<and>
   (list_all is_ws a \<and> list_all is_ws b \<longrightarrow>
      detectLanguage (a @ t @ b) = detectLanguage t \<and> trim (a @ t @ b) = trim t) \<and>
   (\<exists>l r. t = l @ trim t @ r \<and> list_all is_ws l \<and> list_all is_ws r) \<and>
   (trim t \<noteq> [] \<longrightarrow> \<not> is_ws (hd (trim t)) \<and> \<not> is_ws (last (trim t)))"
  using trim_pad[of a b t] trim_decomp[of t] trim_first[of t] trim_last[of t]
  by (simp add: detectLanguage_def trim_idem)

text \<open>
  The object \<^verbatim>\<open>{}\<close> between a space and a line feed in front and a tab and a space behind
  is detected as \<open>JSON\<close>, as the object alone is.
\<close>

theorem detect_trim_invariant_witness:
  "list_all is_ws [32, 10] \<and> list_all is_ws [9, 32] \<and>
   detectLanguage ([32, 10] @ lit ''{}'' @ [9, 32]) = detectLanguage (lit ''{}'') \<and>
   detectLanguage (lit ''{}'') = JSON \<and>
   trim ([32, 10] @ lit ''{}'' @ [9, 32]) = lit ''{}'' \<and>
   \<not> is_ws (hd (trim (lit ''{}''))) \<and> \<not> is_ws (last (trim (lit ''{}'')))"
proof -
  have a: "list_all is_ws [32, 10]" by code_simp
  have b: "list_all is_ws [9, 32]" by code_simp
  have c: "detectLanguage (lit ''{}'') = JSON" by code_simp
  have d: "trim (lit ''{}'') = lit ''{}''" by code_simp
  have e: "lit ''{}'' \<noteq> []" by code_simp
  from detect_trim_invariant[of "lit ''{}''" "[32, 10]" "[9, 32]"] a b
  have f: "detectLanguage ([32, 10] @ lit ''{}'' @ [9, 32]) = detectLanguage (lit ''{}'')"
    and g: "trim ([32, 10] @ lit ''{}'' @ [9, 32]) = trim (lit ''{}'')"
    by blast+
  from detect_trim_invariant[of "lit ''{}''" "[32, 10]" "[9, 32]"] d e
  have h: "\<not> is_ws (hd (trim (lit ''{}''))) \<and> \<not> is_ws (last (trim (lit ''{}'')))"
    by (simp only: not_False_eq_True simp_thms)
  from a b c f g h show ?thesis by (simp only: d simp_thms)
qed

end
